theory Spec2Isabelle
  imports Main "HOL-Library.Word" "HOL-Library.List_Lexorder"
begin

section \<open>Strings\<close>

text \<open>
  A JavaScript string is a sequence of 16-bit code units. Equality (\<^verbatim>\<open>===\<close>), the order
  (\<^verbatim>\<open><\<close>, \<^verbatim>\<open>></\<close>, and the default \<^verbatim>\<open>Array.prototype.sort\<close>), \<^verbatim>\<open>trim\<close>, \<^verbatim>\<open>split\<close> and
  \<^verbatim>\<open>indexOf\<close> all work on code units, and the order is the lexicographic one. The
  constants of the source are ASCII text; \<open>js\<close> gives the string of an ASCII text.
\<close>

type_synonym js_string = "16 word list"

definition js :: "string \<Rightarrow> js_string" where
  "js s = map of_char s"

section \<open>Data model (the types module)\<close>

text \<open>
  A row of the \<^verbatim>\<open>bookings\<close> table, as the interface \<^verbatim>\<open>Booking\<close> declares it. The column
  \<^verbatim>\<open>leader\<close> holds the booker's name and the column \<^verbatim>\<open>members\<close> holds the role
  string (\<^verbatim>\<open>"leader"\<close> or \<^verbatim>\<open>"member"\<close>), as the comments of the module say. The field
  \<^verbatim>\<open>id\<close> is called \<open>booking_id\<close> here, since \<open>id\<close> is the identity function of HOL.
  The module stands at the end of src/Study-Room/App.tsx and, with the celebration date, at
  the end of src/components/HistoryList.tsx.
\<close>

record booking =
  booking_id :: int
  created_at :: js_string
  date :: js_string
  slot :: js_string
  leader :: js_string
  members :: js_string

definition TIME_SLOTS :: "js_string list" where
  "TIME_SLOTS = [js ''9:00-13:00'', js ''14:00-18:00'', js ''19:00-22:30'']"

definition MAX_CAPACITY :: nat where
  "MAX_CAPACITY = 3"

definition EXAM_END_DATE :: js_string where
  "EXAM_END_DATE = js ''2026-01-12''"

text \<open>The form's role state has the type \<^verbatim>\<open>'leader' | 'member'\<close>.\<close>

datatype role = Leader | Member

fun role_string :: "role \<Rightarrow> js_string" where
  "role_string Leader = js ''leader''"
| "role_string Member = js ''member''"

section \<open>String primitives of the runtime\<close>

text \<open>
  \<^verbatim>\<open>String.prototype.trim\<close> removes white space and line terminators from both ends:
  TAB, LF, VT, FF, CR, SPACE, NBSP, the other space separators of Unicode, the line and
  paragraph separators, and the byte order mark.
\<close>

definition is_space :: "16 word \<Rightarrow> bool" where
  "is_space c \<longleftrightarrow>
     c \<in> set [0x0009, 0x000A, 0x000B, 0x000C, 0x000D, 0x0020, 0x00A0, 0x1680,
               0x2000, 0x2001, 0x2002, 0x2003, 0x2004, 0x2005, 0x2006, 0x2007, 0x2008,
               0x2009, 0x200A, 0x2028, 0x2029, 0x202F, 0x205F, 0x3000, 0xFEFF]"

definition trim :: "js_string \<Rightarrow> js_string" where
  "trim s = rev (dropWhile is_space (rev (dropWhile is_space s)))"

text \<open>
  \<^verbatim>\<open>s.split(',')\<close>: the pieces between the commas; the result is never empty, and the empty
  string gives one empty piece.
\<close>

fun split_comma :: "js_string \<Rightarrow> js_string list" where
  "split_comma [] = [[]]"
| "split_comma (c # cs) =
     (if c = 0x2C then [] # split_comma cs
      else (case split_comma cs of
              [] \<Rightarrow> [[c]]
            | p # ps \<Rightarrow> (c # p) # ps))"

text \<open>\<^verbatim>\<open>xs.join(', ')\<close>.\<close>

fun join_comma_space :: "js_string list \<Rightarrow> js_string" where
  "join_comma_space [] = []"
| "join_comma_space [x] = x"
| "join_comma_space (x # y # ys) = x @ js '', '' @ join_comma_space (y # ys)"

text \<open>\<^verbatim>\<open>xs.indexOf(x)\<close>: the first position of \<open>x\<close>, or \<open>-1\<close>.\<close>

fun indexOf :: "'a list \<Rightarrow> 'a \<Rightarrow> int" where
  "indexOf [] x = -1"
| "indexOf (y # ys) x =
     (if y = x then 0
      else (let i = indexOf ys x in if i = -1 then -1 else i + 1))"

text \<open>
  \<^verbatim>\<open>[...new Set(xs)]\<close>: a Set iterates in insertion order, so each element stays at its first
  occurrence.
\<close>

fun set_spread :: "'a list \<Rightarrow> 'a list" where
  "set_spread [] = []"
| "set_spread (x # xs) = x # set_spread (filter (\<lambda>y. y \<noteq> x) xs)"

text \<open>\<^verbatim>\<open>b.slot.split(',').map(s => s.trim())\<close>, which the form computes in three places.\<close>

definition bookedSlots :: "booking \<Rightarrow> js_string list" where
  "bookedSlots b = map trim (split_comma (slot b))"

section \<open>The derived slot index (BookingForm.tsx, slotStatus)\<close>

text \<open>
  The values of the \<^verbatim>\<open>Map\<close> built by \<^verbatim>\<open>slotStatus\<close>. The counter is a JavaScript number that
  only ever grows by one per occupied label, so it is a natural number here.
\<close>

record slot_info =
  count :: nat
  hasLeader :: bool

type_synonym status_map = "js_string \<rightharpoonup> slot_info"

definition no_info :: slot_info where
  "no_info = \<lparr>count = 0, hasLeader = False\<rparr>"

text \<open>The body of the inner \<^verbatim>\<open>bookedSlots.forEach\<close>.\<close>

definition bump_slot :: "bool \<Rightarrow> status_map \<Rightarrow> js_string \<Rightarrow> status_map" where
  "bump_slot isLeader status s =
     (let current = (case status s of None \<Rightarrow> no_info | Some c \<Rightarrow> c)
      in status(s \<mapsto> \<lparr>count = count current + 1,
                        hasLeader = hasLeader current \<or> isLeader\<rparr>))"

text \<open>The body of \<^verbatim>\<open>todayBookings.forEach\<close>.\<close>

definition add_booking :: "status_map \<Rightarrow> booking \<Rightarrow> status_map" where
  "add_booking status b =
     foldl (bump_slot (members b = js ''leader'')) status (bookedSlots b)"

text \<open>The initialisation \<^verbatim>\<open>TIME_SLOTS.forEach(t => status.set(t, ...))\<close>.\<close>

definition init_status :: status_map where
  "init_status = foldl (\<lambda>status t. status(t \<mapsto> no_info)) Map.empty TIME_SLOTS"

definition slotStatus :: "booking list \<Rightarrow> js_string \<Rightarrow> status_map" where
  "slotStatus existingBookings d =
     (let todayBookings = filter (\<lambda>b. date b = d) existingBookings
      in foldl add_booking init_status todayBookings)"

section \<open>The form (BookingForm.tsx)\<close>

text \<open>
  \<^verbatim>\<open>toggleSlot\<close>, as a function from the previous selection to the next one. The slot
  buttons are rendered from \<^verbatim>\<open>TIME_SLOTS.map\<close>, so the handler is only ever called with a
  catalog label; the function itself is modelled for every string.
\<close>

definition toggleSlot :: "status_map \<Rightarrow> js_string \<Rightarrow> js_string list \<Rightarrow> js_string list" where
  "toggleSlot status s prev =
     (case status s of
        None \<Rightarrow> prev
      | Some currentStatus \<Rightarrow>
          if count currentStatus \<ge> MAX_CAPACITY then prev
          else if s \<in> set prev then [] else [s])"

text \<open>
  The messages that \<^verbatim>\<open>handleSubmit\<close> passes to \<^verbatim>\<open>setError\<close> before returning, one
  constructor per message, in the order of the source; the two messages of the loop carry the
  slot they interpolate.
\<close>

datatype reject_reason =
    MissingSlot
  | MissingName
  | SlotFull js_string
  | LeaderConflict js_string
  | ConsecutiveLeadership
  | DuplicateBooking

text \<open>Step 3, the loop \<^verbatim>\<open>for (const slot of selectedSlots)\<close> with its two early returns.\<close>

fun check_slots :: "status_map \<Rightarrow> role \<Rightarrow> js_string list \<Rightarrow> reject_reason option" where
  "check_slots status r [] = None"
| "check_slots status r (s # ss) =
     (case status s of
        None \<Rightarrow> check_slots status r ss
      | Some currentStatus \<Rightarrow>
          if count currentStatus \<ge> MAX_CAPACITY then Some (SlotFull s)
          else if r = Leader \<and> hasLeader currentStatus then Some (LeaderConflict s)
          else check_slots status r ss)"

text \<open>Step 4a.\<close>

definition existingLeaderSlots :: "booking list \<Rightarrow> js_string \<Rightarrow> js_string \<Rightarrow> js_string list" where
  "existingLeaderSlots existingBookings d n =
     concat (map bookedSlots
       (filter (\<lambda>b. date b = d \<and> leader b = trim n \<and> members b = js ''leader'')
          existingBookings))"

text \<open>Step 4b.\<close>

definition allProjectedLeaderSlots ::
  "booking list \<Rightarrow> js_string \<Rightarrow> js_string \<Rightarrow> js_string list \<Rightarrow> js_string list" where
  "allProjectedLeaderSlots existingBookings d n sel =
     set_spread (existingLeaderSlots existingBookings d n @ sel)"

text \<open>Step 4c; the comparator \<^verbatim>\<open>(a, b) => a - b\<close> sorts the numbers in ascending order.\<close>

definition indices :: "booking list \<Rightarrow> js_string \<Rightarrow> js_string \<Rightarrow> js_string list \<Rightarrow> int list" where
  "indices existingBookings d n sel =
     sort (filter (\<lambda>idx. idx \<noteq> -1)
       (map (indexOf TIME_SLOTS) (allProjectedLeaderSlots existingBookings d n sel)))"

text \<open>
  Step 4d, the loop \<^verbatim>\<open>for (let i = 0; i < indices.length - 1; i++)\<close>, which returns at the
  first \<open>i\<close> with \<^verbatim>\<open>indices[i + 1] === indices[i] + 1\<close>. For the empty list the bound is
  \<open>-1\<close> in the source and \<open>0\<close> here; no iteration runs in either.
\<close>

definition has_consecutive :: "int list \<Rightarrow> bool" where
  "has_consecutive idxs =
     list_ex (\<lambda>i. idxs ! (i + 1) = idxs ! i + 1) [0 ..< length idxs - 1]"

text \<open>Step 5.\<close>

definition isDuplicate :: "booking list \<Rightarrow> js_string \<Rightarrow> js_string \<Rightarrow> js_string list \<Rightarrow> bool" where
  "isDuplicate existingBookings d n sel =
     list_ex (\<lambda>b.
        if date b \<noteq> d then False
        else if leader b \<noteq> trim n then False
        else list_ex (\<lambda>s. s \<in> set sel) (bookedSlots b))
       existingBookings"

text \<open>
  The part of \<^verbatim>\<open>handleSubmit\<close> before \<^verbatim>\<open>setIsSubmitting(true)\<close>: the checks in the order of
  the source. \<open>Some r\<close> is a return after \<^verbatim>\<open>setError\<close>; \<open>None\<close> means that the handler goes
  on to the insert.
\<close>

definition validate ::
  "booking list \<Rightarrow> js_string \<Rightarrow> role \<Rightarrow> js_string \<Rightarrow> js_string list \<Rightarrow> reject_reason option" where
  "validate existingBookings d r n sel =
     (if length sel = 0 then Some MissingSlot
      else if trim n = [] then Some MissingName
      else (case check_slots (slotStatus existingBookings d) r sel of
              Some e \<Rightarrow> Some e
            | None \<Rightarrow>
                if r = Leader \<and> has_consecutive (indices existingBookings d n sel)
                then Some ConsecutiveLeadership
                else if isDuplicate existingBookings d n sel then Some DuplicateBooking
                else None))"

text \<open>The object that the handler passes to \<^verbatim>\<open>insert\<close>.\<close>

record new_booking =
  row_date :: js_string
  row_leader :: js_string
  row_members :: js_string
  row_slot :: js_string

definition insert_row :: "js_string \<Rightarrow> role \<Rightarrow> js_string \<Rightarrow> js_string list \<Rightarrow> new_booking" where
  "insert_row d r n sel =
     (let sortedSlots = sort sel;
          slotString = join_comma_space sortedSlots
      in \<lparr>row_date = d, row_leader = trim n, row_members = role_string r,
          row_slot = slotString\<rparr>)"

text \<open>
  The state of the form. \<^verbatim>\<open>isSubmitting\<close> is left out: it is false whenever the handler is
  not running. The error shown is either one of the messages above or the message of a failed
  store call.
\<close>

datatype form_error = Rejected reject_reason | StoreError js_string

record form_state =
  form_date :: js_string
  form_role :: role
  form_name :: js_string
  selectedSlots :: "js_string list"
  form_error :: "form_error option"
  showCelebration :: bool

text \<open>
  \<^verbatim>\<open>handleSubmit\<close>. The store call is a parameter: \<open>ins rows st\<close> gives the error of the
  call, if any, and the store afterwards. The celebration date is a parameter too, so that
  its influence can be stated; the form uses \<open>EXAM_END_DATE\<close>. The result is the form state,
  the store, and whether \<^verbatim>\<open>onSuccess\<close> was called.
\<close>

definition handleSubmit ::
  "js_string \<Rightarrow> (new_booking list \<Rightarrow> 's \<Rightarrow> js_string option \<times> 's) \<Rightarrow> booking list
     \<Rightarrow> form_state \<Rightarrow> 's \<Rightarrow> form_state \<times> 's \<times> bool" where
  "handleSubmit examEndDate ins existingBookings f st =
     (let f0 = f\<lparr>form_error := None\<rparr>
      in case validate existingBookings (form_date f) (form_role f) (form_name f)
                (selectedSlots f) of
           Some e \<Rightarrow> (f0\<lparr>form_error := Some (Rejected e)\<rparr>, st, False)
         | None \<Rightarrow>
             (case ins [insert_row (form_date f) (form_role f) (form_name f)
                          (selectedSlots f)] st of
                (Some msg, st') \<Rightarrow> (f0\<lparr>form_error := Some (StoreError msg)\<rparr>, st', False)
              | (None, st') \<Rightarrow>
                  (f0\<lparr>form_name := [], selectedSlots := [], form_role := Member,
                      showCelebration :=
                        (if form_date f = examEndDate then True else showCelebration f)\<rparr>,
                   st', True)))"

section \<open>The store (the Supabase client module, App.tsx)\<close>

text \<open>
  The client module (at the end of src/components/HistoryList.tsx) has a stand-in for the
  hosted store, which is the only store code of the repository. It keeps the table as a list. \<^verbatim>\<open>insert\<close> appends the rows,
  giving row \<open>i\<close> the id \<^verbatim>\<open>Date.now() + i\<close> and the current time as \<^verbatim>\<open>created_at\<close>; the clock
  readings are parameters. It never reports an error.
\<close>

definition demo_insert ::
  "int \<Rightarrow> js_string \<Rightarrow> new_booking list \<Rightarrow> booking list \<Rightarrow> js_string option \<times> booking list" where
  "demo_insert now stamp rows current =
     (let newRows = map (\<lambda>(i, r).
            \<lparr>booking_id = now + int i, created_at = stamp, date = row_date r,
             slot = row_slot r, leader = row_leader r, members = row_members r\<rparr>)
          (enumerate 0 rows)
      in (None, current @ newRows))"

text \<open>
  \<^verbatim>\<open>select().order(col, {ascending})\<close> of this stand-in, for the column \<^verbatim>\<open>date\<close>: a stable sort
  with the comparator of the source.
\<close>

definition date_cmp :: "bool \<Rightarrow> booking \<Rightarrow> booking \<Rightarrow> int" where
  "date_cmp ascending a b =
     (if date a < date b then (if ascending then -1 else 1)
      else if date a > date b then (if ascending then 1 else -1)
      else 0)"

fun insert_sorted :: "('a \<Rightarrow> 'a \<Rightarrow> int) \<Rightarrow> 'a \<Rightarrow> 'a list \<Rightarrow> 'a list" where
  "insert_sorted cmp x [] = [x]"
| "insert_sorted cmp x (y # ys) =
     (if cmp x y \<le> 0 then x # y # ys else y # insert_sorted cmp x ys)"

definition sort_with :: "('a \<Rightarrow> 'a \<Rightarrow> int) \<Rightarrow> 'a list \<Rightarrow> 'a list" where
  "sort_with cmp xs = foldr (insert_sorted cmp) xs []"

text \<open>\<^verbatim>\<open>fetchBookings\<close> of App.tsx reads the whole table, latest dates first.\<close>

definition fetchBookings :: "booking list \<Rightarrow> booking list" where
  "fetchBookings store = sort_with (date_cmp False) store"

section \<open>The application as a state machine (App.tsx with BookingForm.tsx)\<close>

text \<open>
  The initial state of the form, as the \<^verbatim>\<open>useState\<close> calls give it; the default date (two
  days after today) is a parameter.
\<close>

definition initial_form :: "js_string \<Rightarrow> form_state" where
  "initial_form defaultDate =
     \<lparr>form_date = defaultDate, form_role = Member, form_name = [], selectedSlots = [],
      form_error = None, showCelebration = False\<rparr>"

text \<open>
  The form never sees the table itself. \<^verbatim>\<open>App\<close> keeps a state \<^verbatim>\<open>bookings\<close>, initially
  \<^verbatim>\<open>[]\<close>, and hands it to the form as \<^verbatim>\<open>existingBookings\<close>. \<^verbatim>\<open>fetchBookings\<close> starts a read
  when the component mounts and whenever the form calls \<^verbatim>\<open>onSuccess\<close>; the call is not
  awaited. A read is answered from the table as it is at that moment, and the answer
  replaces \<^verbatim>\<open>bookings\<close> when it arrives, which may be later and in another order; a read
  that fails leaves \<^verbatim>\<open>bookings\<close> as it was. The state of the application is therefore the
  table, the \<^verbatim>\<open>bookings\<close> state, the number of reads started and not yet answered, the
  answers on their way, and the form. The model is of one client: writes of other clients
  to the table are outside it.
\<close>

record app_state =
  table :: "booking list"
  bookings :: "booking list"
  reads :: nat
  inflight :: "booking list list"
  form :: form_state

definition initial_app :: "booking list \<Rightarrow> js_string \<Rightarrow> app_state" where
  "initial_app store defaultDate =
     \<lparr>table = store, bookings = [], reads = 1, inflight = [],
      form = initial_form defaultDate\<rparr>"

text \<open>
  What can happen: the user changes the date (which clears the selection), picks a role,
  edits the name, presses the button of a catalog slot, or submits (at the given clock
  readings); a started read is answered, an answer arrives, or a started read fails. A
  press with a label that has no button does nothing. The slot buttons and the handler work
  on \<^verbatim>\<open>bookings\<close>; the insert works on the table; a successful submission starts a read.
  While an insert is pending the submit button is disabled, and what the user does to the
  form in that time is overwritten by the reset or can as well be done afterwards, so a
  submission is one step.
\<close>

datatype event =
    SetDate js_string
  | SetRole role
  | SetName js_string
  | ClickSlot js_string
  | Submit int js_string
  | ReadAnswered
  | AnswerArrives nat
  | ReadFails

fun app_step :: "app_state \<Rightarrow> event \<Rightarrow> app_state" where
  "app_step st (SetDate d) = st\<lparr>form := (form st)\<lparr>form_date := d, selectedSlots := []\<rparr>\<rparr>"
| "app_step st (SetRole r) = st\<lparr>form := (form st)\<lparr>form_role := r\<rparr>\<rparr>"
| "app_step st (SetName n) = st\<lparr>form := (form st)\<lparr>form_name := n\<rparr>\<rparr>"
| "app_step st (ClickSlot t) =
     (if t \<in> set TIME_SLOTS
      then st\<lparr>form := (form st)\<lparr>selectedSlots :=
              toggleSlot (slotStatus (bookings st) (form_date (form st))) t
                (selectedSlots (form st))\<rparr>\<rparr>
      else st)"
| "app_step st (Submit now stamp) =
     (case handleSubmit EXAM_END_DATE (demo_insert now stamp) (bookings st) (form st) (table st) of
        (f', table', refreshed) \<Rightarrow>
          st\<lparr>table := table', form := f',
             reads := (if refreshed then reads st + 1 else reads st)\<rparr>)"
| "app_step st ReadAnswered =
     (if reads st = 0 then st
      else st\<lparr>reads := reads st - 1, inflight := inflight st @ [fetchBookings (table st)]\<rparr>)"
| "app_step st (AnswerArrives i) =
     (if i < length (inflight st)
      then st\<lparr>bookings := inflight st ! i,
              inflight := take i (inflight st) @ drop (Suc i) (inflight st)\<rparr>
      else st)"
| "app_step st ReadFails =
     (if reads st = 0 then st else st\<lparr>reads := reads st - 1\<rparr>)"

definition run :: "app_state \<Rightarrow> event list \<Rightarrow> app_state" where
  "run state events = foldl app_step state events"

section \<open>What the slot index computes\<close>

text \<open>
  The quantities that the fold of \<open>slotStatus\<close> accumulates, stated directly on the list
  of reservations: how often reservations of the date occupy the slot, whether a leader
  reservation of the date occupies it, and whether any reservation of the date does.
\<close>

definition occupantCount :: "booking list \<Rightarrow> js_string \<Rightarrow> js_string \<Rightarrow> nat" where
  "occupantCount bs d s =
     sum_list (map (\<lambda>b. count_list (bookedSlots b) s) (filter (\<lambda>b. date b = d) bs))"

definition leaderPresent :: "booking list \<Rightarrow> js_string \<Rightarrow> js_string \<Rightarrow> bool" where
  "leaderPresent bs d s \<longleftrightarrow>
     (\<exists>b \<in> set bs. date b = d \<and> members b = js ''leader'' \<and> s \<in> set (bookedSlots b))"

definition occupied :: "booking list \<Rightarrow> js_string \<Rightarrow> js_string \<Rightarrow> bool" where
  "occupied bs d s \<longleftrightarrow> (\<exists>b \<in> set bs. date b = d \<and> s \<in> set (bookedSlots b))"

text \<open>
  The entry that the source reads when the key may be missing
  (\<^verbatim>\<open>status.get(s) || { count: 0, hasLeader: false }\<close>).
\<close>

definition info_of :: "slot_info option \<Rightarrow> slot_info" where
  "info_of x = (case x of None \<Rightarrow> no_info | Some c \<Rightarrow> c)"

section \<open>The stages of the validator, in the words of the specification\<close>

text \<open>
  The specification describes the validator for a request with one slot \<open>s\<close> (or none),
  as five stages over the derived index and the history. Each stage is stated here on its
  own, from section 4.2 of the specification, for comparison with \<open>validate\<close>.
\<close>

text \<open>Capacity: the index's \<open>occupantCount\<close> of the slot is at least \<open>C\<close>.\<close>

definition stage_capacity :: "booking list \<Rightarrow> js_string \<Rightarrow> js_string \<Rightarrow> bool" where
  "stage_capacity history d s \<longleftrightarrow> occupantCount history d s \<ge> MAX_CAPACITY"

text \<open>Role uniqueness: the request is for leader and the index's \<open>hasLeader\<close> is true.\<close>

definition stage_role :: "booking list \<Rightarrow> js_string \<Rightarrow> role \<Rightarrow> js_string \<Rightarrow> bool" where
  "stage_role history d r s \<longleftrightarrow> r = Leader \<and> leaderPresent history d s"

text \<open>The history shows the booker as leader of slot \<open>x\<close> on the date.\<close>

definition holdsLeader :: "booking list \<Rightarrow> js_string \<Rightarrow> js_string \<Rightarrow> js_string \<Rightarrow> bool" where
  "holdsLeader history d n x \<longleftrightarrow>
     (\<exists>b \<in> set history. date b = d \<and> leader b = trim n \<and> members b = js ''leader''
        \<and> x \<in> set (bookedSlots b))"

text \<open>
  Anti-consecutive leadership: the request is for leader, and among the slots the booker
  already leads on the date together with the requested one, two stand at consecutive
  positions of the catalog.
\<close>

definition projectedLeader :: "booking list \<Rightarrow> js_string \<Rightarrow> js_string \<Rightarrow> js_string \<Rightarrow> js_string \<Rightarrow> bool" where
  "projectedLeader history d n s x \<longleftrightarrow> x = s \<or> holdsLeader history d n x"

definition stage_consecutive ::
  "booking list \<Rightarrow> js_string \<Rightarrow> role \<Rightarrow> js_string \<Rightarrow> js_string \<Rightarrow> bool" where
  "stage_consecutive history d r n s \<longleftrightarrow>
     r = Leader \<and>
     list_ex (\<lambda>i. projectedLeader history d n s (TIME_SLOTS ! i)
                 \<and> projectedLeader history d n s (TIME_SLOTS ! (i + 1)))
       [0 ..< length TIME_SLOTS - 1]"

text \<open>
  Duplicate submission: some reservation has the same name (after trimming the request's),
  the same date, and occupies the slot.
\<close>

definition stage_duplicate :: "booking list \<Rightarrow> js_string \<Rightarrow> js_string \<Rightarrow> js_string \<Rightarrow> bool" where
  "stage_duplicate history d n s \<longleftrightarrow>
     (\<exists>b \<in> set history. date b = d \<and> leader b = trim n \<and> s \<in> set (bookedSlots b))"

text \<open>The stages in their order; the first that fails gives the reason.\<close>

definition ordered_stages ::
  "booking list \<Rightarrow> js_string \<Rightarrow> role \<Rightarrow> js_string \<Rightarrow> js_string option \<Rightarrow> reject_reason option" where
  "ordered_stages history d r n chosen =
     (case chosen of
        None \<Rightarrow> Some MissingSlot
      | Some s \<Rightarrow>
          if trim n = [] then Some MissingName
          else if stage_capacity history d s then Some (SlotFull s)
          else if stage_role history d r s then Some (LeaderConflict s)
          else if stage_consecutive history d r n s then Some ConsecutiveLeadership
          else if stage_duplicate history d n s then Some DuplicateBooking
          else None)"

section \<open>Auxiliary notions for the statements\<close>

text \<open>
  The row that the repository's store holds after the insert of an accepted submission,
  and the condition that the handler's checks all pass.
\<close>

definition stored_row :: "form_state \<Rightarrow> int \<Rightarrow> js_string \<Rightarrow> booking" where
  "stored_row f now stamp =
     \<lparr>booking_id = now, created_at = stamp, date = form_date f,
      slot = join_comma_space (sort (selectedSlots f)), leader = trim (form_name f),
      members = role_string (form_role f)\<rparr>"

definition admitted :: "booking list \<Rightarrow> form_state \<Rightarrow> bool" where
  "admitted history f \<longleftrightarrow>
     validate history (form_date f) (form_role f) (form_name f) (selectedSlots f) = None"

text \<open>
  Example data: a stored row with the given date and slot and the given ASCII name and role,
  and the three labels of the catalog.
\<close>

definition row :: "js_string \<Rightarrow> js_string \<Rightarrow> string \<Rightarrow> string \<Rightarrow> booking" where
  "row d s n r =
     \<lparr>booking_id = 0, created_at = [], date = d, slot = s, leader = js n, members = js r\<rparr>"

definition S1 :: js_string where "S1 = js ''9:00-13:00''"
definition S2 :: js_string where "S2 = js ''14:00-18:00''"
definition S3 :: js_string where "S3 = js ''19:00-22:30''"
definition D1 :: js_string where "D1 = js ''2026-01-10''"
definition D2 :: js_string where "D2 = js ''2026-01-11''"

text \<open>A selection that the slot buttons can produce: nothing, or one catalog label.\<close>

definition catalog_selection :: "js_string list \<Rightarrow> bool" where
  "catalog_selection sel \<longleftrightarrow>
     (case sel of [] \<Rightarrow> True | [t] \<Rightarrow> t \<in> set TIME_SLOTS | _ \<Rightarrow> False)"

text \<open>The rows that a run has appended to the table it started from.\<close>

definition written :: "app_state \<Rightarrow> event list \<Rightarrow> booking list" where
  "written st events = drop (length (table st)) (table (run st events))"

text \<open>
  A run in which every submission finds \<^verbatim>\<open>bookings\<close> equal to the table as a read gives
  it at that moment: no row has been written since the answer that the form holds was
  taken.
\<close>

fun fresh_submits :: "app_state \<Rightarrow> event list \<Rightarrow> bool" where
  "fresh_submits st [] = True"
| "fresh_submits st (ev # events) =
     ((case ev of
         Submit now stamp \<Rightarrow> bookings st = fetchBookings (table st)
       | _ \<Rightarrow> True)
      \<and> fresh_submits (app_step st ev) events)"

text \<open>The number of leader reservations that occupy a slot on a date.\<close>

definition leaderCount :: "booking list \<Rightarrow> js_string \<Rightarrow> js_string \<Rightarrow> nat" where
  "leaderCount bs d s =
     length (filter (\<lambda>b. date b = d \<and> members b = js ''leader'' \<and> s \<in> set (bookedSlots b)) bs)"

text \<open>
  Example histories: a slot with three occupants, without and with a leader, and one with
  four.
\<close>

definition three_members :: "booking list" where
  "three_members =
     [row D1 S1 ''A'' ''member'', row D1 S1 ''B'' ''member'', row D1 S1 ''C'' ''member'']"

definition full_with_leader :: "booking list" where
  "full_with_leader =
     [row D1 S1 ''A'' ''leader'', row D1 S1 ''B'' ''member'', row D1 S1 ''C'' ''member'']"

definition four_members :: "booking list" where
  "four_members =
     [row D1 S1 ''A'' ''member'', row D1 S1 ''B'' ''member'', row D1 S1 ''C'' ''member'',
      row D1 S1 ''E'' ''member'']"

text \<open>A form filled in with a date, a role, a name and a selection.\<close>

definition filled_form :: "js_string \<Rightarrow> role \<Rightarrow> js_string \<Rightarrow> js_string list \<Rightarrow> form_state" where
  "filled_form d r n sel =
     \<lparr>form_date = d, form_role = r, form_name = n, selectedSlots = sel,
      form_error = None, showCelebration = False\<rparr>"

text \<open>
  Example runs. In the first the user waits for each read before filling in the form, and
  asks twice for the same slot as leader. In the second the same two submissions are made
  before any read has arrived.
\<close>

definition ask_leader :: "int \<Rightarrow> event list" where
  "ask_leader now = [SetName (js ''A''), SetRole Leader, ClickSlot S1, Submit now (js ''t'')]"

definition patient_run :: "event list" where
  "patient_run =
     [ReadAnswered, AnswerArrives 0] @ ask_leader 5 @ [ReadAnswered, AnswerArrives 0]
       @ ask_leader 6"

definition hasty_run :: "event list" where
  "hasty_run = ask_leader 5 @ ask_leader 6"

section \<open>The slot index in closed form\<close>

lemma bump_slot_apply:
  "bump_slot L status x s =
     (if s = x
      then Some \<lparr>count = count (info_of (status x)) + 1,
                 hasLeader = hasLeader (info_of (status x)) \<or> L\<rparr>
      else status s)"
  by (simp add: bump_slot_def info_of_def Let_def)

lemma foldl_bump_slot:
  "foldl (bump_slot L) status ss s =
     (if s \<in> set ss
      then Some \<lparr>count = count (info_of (status s)) + count_list ss s,
                 hasLeader = hasLeader (info_of (status s)) \<or> L\<rparr>
      else status s)"
proof (induction ss arbitrary: status)
  case Nil
  show ?case by simp
next
  case (Cons x xs)
  have "foldl (bump_slot L) status (x # xs) s = foldl (bump_slot L) (bump_slot L status x) xs s"
    by simp
  also have "\<dots> =
     (if s \<in> set xs
      then Some \<lparr>count = count (info_of (bump_slot L status x s)) + count_list xs s,
                 hasLeader = hasLeader (info_of (bump_slot L status x s)) \<or> L\<rparr>
      else bump_slot L status x s)"
    by (rule Cons.IH)
  also have "\<dots> =
     (if s \<in> set (x # xs)
      then Some \<lparr>count = count (info_of (status s)) + count_list (x # xs) s,
                 hasLeader = hasLeader (info_of (status s)) \<or> L\<rparr>
      else status s)"
    by (simp add: bump_slot_apply info_of_def)
  finally show ?case .
qed

lemma add_booking_apply:
  "add_booking status b s =
     (if s \<in> set (bookedSlots b)
      then Some \<lparr>count = count (info_of (status s)) + count_list (bookedSlots b) s,
                 hasLeader = hasLeader (info_of (status s)) \<or> members b = js ''leader''\<rparr>
      else status s)"
  by (simp add: add_booking_def foldl_bump_slot)

lemma init_status_apply:
  "init_status s = (if s \<in> set TIME_SLOTS then Some no_info else None)"
  by (simp add: init_status_def TIME_SLOTS_def js_def)

lemma foldl_add_booking:
  "foldl add_booking status bs s =
     (if \<exists>b \<in> set bs. s \<in> set (bookedSlots b)
      then Some \<lparr>count = count (info_of (status s))
                          + sum_list (map (\<lambda>b. count_list (bookedSlots b) s) bs),
                 hasLeader = hasLeader (info_of (status s))
                          \<or> (\<exists>b \<in> set bs. members b = js ''leader'' \<and> s \<in> set (bookedSlots b))\<rparr>
      else status s)"
proof (induction bs arbitrary: status)
  case Nil
  show ?case by simp
next
  case (Cons b bs)
  have zero: "s \<notin> set (bookedSlots c) \<Longrightarrow> count_list (bookedSlots c) s = 0" for c
    by (simp add: count_list_0_iff)
  have zeros: "\<forall>c \<in> set cs. s \<notin> set (bookedSlots c)
      \<Longrightarrow> sum_list (map (\<lambda>b. count_list (bookedSlots b) s) cs) = 0" for cs
    by (induction cs) (simp_all add: zero)
  have "foldl add_booking status (b # bs) s = foldl add_booking (add_booking status b) bs s"
    by simp
  also have "\<dots> =
     (if \<exists>c \<in> set bs. s \<in> set (bookedSlots c)
      then Some \<lparr>count = count (info_of (add_booking status b s))
                          + sum_list (map (\<lambda>c. count_list (bookedSlots c) s) bs),
                 hasLeader = hasLeader (info_of (add_booking status b s))
                          \<or> (\<exists>c \<in> set bs. members c = js ''leader'' \<and> s \<in> set (bookedSlots c))\<rparr>
      else add_booking status b s)"
    by (rule Cons.IH)
  also have "\<dots> =
     (if \<exists>c \<in> set (b # bs). s \<in> set (bookedSlots c)
      then Some \<lparr>count = count (info_of (status s))
                          + sum_list (map (\<lambda>c. count_list (bookedSlots c) s) (b # bs)),
                 hasLeader = hasLeader (info_of (status s))
                          \<or> (\<exists>c \<in> set (b # bs). members c = js ''leader'' \<and> s \<in> set (bookedSlots c))\<rparr>
      else status s)"
    by (auto simp add: add_booking_apply info_of_def zero zeros)
  finally show ?case .
qed

lemma slotStatus_apply:
  "slotStatus bs d s =
     (if s \<in> set TIME_SLOTS \<or> occupied bs d s
      then Some \<lparr>count = occupantCount bs d s, hasLeader = leaderPresent bs d s\<rparr>
      else None)"
proof -
  have zeros: "\<forall>c \<in> set cs. s \<notin> set (bookedSlots c)
      \<Longrightarrow> sum_list (map (\<lambda>b. count_list (bookedSlots b) s) cs) = 0" for cs
    by (induction cs) (simp_all add: count_list_0_iff)
  show ?thesis
    unfolding slotStatus_def Let_def foldl_add_booking init_status_apply
    by (auto simp add: occupied_def occupantCount_def leaderPresent_def info_of_def
        no_info_def zeros)
qed

lemma unoccupied_count: "\<not> occupied bs d s \<Longrightarrow> occupantCount bs d s = 0"
  by (induction bs) (auto simp add: occupied_def occupantCount_def count_list_0_iff)

lemma unoccupied_leader: "\<not> occupied bs d s \<Longrightarrow> \<not> leaderPresent bs d s"
  by (auto simp add: occupied_def leaderPresent_def)

lemma occupantCount_append:
  "occupantCount (bs @ cs) d s = occupantCount bs d s + occupantCount cs d s"
  by (simp add: occupantCount_def)

lemma occupantCount_single:
  "occupantCount [b] d s = (if date b = d then count_list (bookedSlots b) s else 0)"
  by (simp add: occupantCount_def)

section \<open>Facts about the js_string primitives\<close>

lemma trim_fixed:
  assumes "u = [] \<or> (\<not> is_space (hd u) \<and> \<not> is_space (last u))"
  shows "trim u = u"
proof (cases "u = []")
  case True
  then show ?thesis by (simp add: trim_def)
next
  case False
  with assms have h: "\<not> is_space (hd u)" and l: "\<not> is_space (last u)" by auto
  from False h have front: "dropWhile is_space u = u"
    by (cases u) auto
  from False l have "\<not> is_space (hd (rev u))"
    by (simp add: hd_rev)
  with False have rear: "dropWhile is_space (rev u) = rev u"
    by (cases "rev u") auto
  show ?thesis
    by (simp add: trim_def front rear)
qed

lemma trim_ends:
  "trim s = [] \<or> (\<not> is_space (hd (trim s)) \<and> \<not> is_space (last (trim s)))"
proof (cases "trim s = []")
  case True
  then show ?thesis by simp
next
  case False
  define t where "t = dropWhile is_space s"
  define w where "w = dropWhile is_space (rev t)"
  have tr: "trim s = rev w"
    by (simp add: trim_def t_def w_def)
  with False have wne: "w \<noteq> []" by simp
  then have lastok: "\<not> is_space (hd w)"
    unfolding w_def by (rule hd_dropWhile)
  have split: "rev t = takeWhile is_space (rev t) @ w"
    by (simp add: w_def)
  then have "t = rev w @ rev (takeWhile is_space (rev t))"
    by (metis rev_append rev_rev_ident)
  with wne have hd_eq: "hd (rev w) = hd t"
    by (metis hd_append2 rev_is_Nil_conv)
  from wne have "t \<noteq> []"
    by (auto simp add: w_def)
  then have "\<not> is_space (hd t)"
    unfolding t_def by (rule hd_dropWhile)
  with hd_eq have "\<not> is_space (hd (trim s))"
    by (simp add: tr)
  moreover from lastok wne have "\<not> is_space (last (trim s))"
    by (simp add: tr last_rev)
  ultimately show ?thesis by simp
qed

lemma trim_idem: "trim (trim s) = trim s"
  by (rule trim_fixed) (rule trim_ends)

lemma catalog_bookedSlots:
  "t \<in> set TIME_SLOTS \<Longrightarrow> slot b = t \<Longrightarrow> bookedSlots b = [t]"
  by (auto simp add: TIME_SLOTS_def bookedSlots_def trim_def is_space_def js_def)

lemma indexOf_lower: "- 1 \<le> indexOf xs x"
  by (induction xs) (auto simp add: Let_def)

lemma indexOf_absent: "indexOf xs x = - 1 \<longleftrightarrow> x \<notin> set xs"
proof (induction xs)
  case Nil
  show ?case by simp
next
  case (Cons y ys)
  have "- 1 \<le> indexOf ys x" by (rule indexOf_lower)
  with Cons show ?case by (auto simp add: Let_def)
qed

lemma indexOf_nth:
  "distinct xs \<Longrightarrow> i < length xs \<Longrightarrow> indexOf xs (xs ! i) = int i"
proof (induction xs arbitrary: i)
  case Nil
  then show ?case by simp
next
  case (Cons y ys)
  show ?case
  proof (cases i)
    case 0
    then show ?thesis by simp
  next
    case (Suc j)
    with Cons.prems have j: "j < length ys" and d: "distinct ys" and ny: "y \<notin> set ys"
      by auto
    from j ny have "ys ! j \<noteq> y"
      by (metis nth_mem)
    moreover have "indexOf ys (ys ! j) = int j"
      using Cons.IH d j by blast
    ultimately show ?thesis
      using Suc by (simp add: Let_def)
  qed
qed

lemma indexOf_position:
  "x \<in> set xs \<Longrightarrow> nat (indexOf xs x) < length xs \<and> xs ! nat (indexOf xs x) = x"
proof (induction xs)
  case Nil
  then show ?case by simp
next
  case (Cons y ys)
  show ?case
  proof (cases "y = x")
    case True
    then show ?thesis by simp
  next
    case False
    with Cons.prems have mem: "x \<in> set ys" by simp
    then have ne: "indexOf ys x \<noteq> - 1" by (simp add: indexOf_absent)
    with indexOf_lower [of ys x] have nn: "0 \<le> indexOf ys x" by arith
    from Cons.IH mem have ih: "nat (indexOf ys x) < length ys \<and> ys ! nat (indexOf ys x) = x" .
    from nn have "nat (indexOf ys x + 1) = Suc (nat (indexOf ys x))" by arith
    with False ne ih show ?thesis by (simp add: Let_def)
  qed
qed

lemma set_set_spread: "set (set_spread xs) = set xs"
proof (induction xs rule: set_spread.induct)
  case 1
  show ?case by simp
next
  case (2 x xs)
  then show ?case by auto
qed

lemma distinct_TIME_SLOTS: "distinct TIME_SLOTS"
  by (simp add: TIME_SLOTS_def js_def)

section \<open>The adjacency scan\<close>

lemma has_consecutive_iff:
  "has_consecutive idxs \<longleftrightarrow> (\<exists>i. i + 1 < length idxs \<and> idxs ! (i + 1) = idxs ! i + 1)"
proof -
  have "i < length idxs - 1 \<longleftrightarrow> i + 1 < length idxs" for i
    by arith
  then show ?thesis
    by (auto simp add: has_consecutive_def list_ex_iff)
qed

lemma has_consecutive_Cons:
  "has_consecutive (x # y # ys) \<longleftrightarrow> y = x + 1 \<or> has_consecutive (y # ys)"
proof
  assume "has_consecutive (x # y # ys)"
  then obtain i where i: "i + 1 < length (x # y # ys)"
      and eq: "(x # y # ys) ! (i + 1) = (x # y # ys) ! i + 1"
    by (auto simp add: has_consecutive_iff)
  show "y = x + 1 \<or> has_consecutive (y # ys)"
  proof (cases i)
    case 0
    with eq show ?thesis by simp
  next
    case (Suc j)
    with i eq have "j + 1 < length (y # ys) \<and> (y # ys) ! (j + 1) = (y # ys) ! j + 1"
      by simp
    then show ?thesis
      unfolding has_consecutive_iff by blast
  qed
next
  assume "y = x + 1 \<or> has_consecutive (y # ys)"
  then show "has_consecutive (x # y # ys)"
  proof
    assume "y = x + 1"
    then have "0 + 1 < length (x # y # ys) \<and> (x # y # ys) ! (0 + 1) = (x # y # ys) ! 0 + 1"
      by simp
    then show ?thesis
      unfolding has_consecutive_iff by blast
  next
    assume "has_consecutive (y # ys)"
    then obtain j where "j + 1 < length (y # ys)" "(y # ys) ! (j + 1) = (y # ys) ! j + 1"
      by (auto simp add: has_consecutive_iff)
    then have "Suc j + 1 < length (x # y # ys)
        \<and> (x # y # ys) ! (Suc j + 1) = (x # y # ys) ! Suc j + 1"
      by simp
    then show ?thesis
      unfolding has_consecutive_iff by blast
  qed
qed

lemma has_consecutive_members:
  "has_consecutive idxs \<Longrightarrow> \<exists>a \<in> set idxs. a + 1 \<in> set idxs"
proof -
  assume "has_consecutive idxs"
  then obtain i where i: "i + 1 < length idxs" and eq: "idxs ! (i + 1) = idxs ! i + 1"
    by (auto simp add: has_consecutive_iff)
  from i have "idxs ! i \<in> set idxs" "idxs ! (i + 1) \<in> set idxs"
    by simp_all
  with eq show ?thesis by auto
qed

lemma sorted_members_consecutive:
  "sorted idxs \<Longrightarrow> a \<in> set idxs \<Longrightarrow> a + 1 \<in> set idxs \<Longrightarrow> has_consecutive idxs"
proof (induction idxs)
  case Nil
  then show ?case by simp
next
  case (Cons x xs)
  show ?case
  proof (cases xs)
    case Nil
    with Cons.prems show ?thesis by simp
  next
    case (Cons y ys)
    from Cons.prems(1) have low: "\<forall>z \<in> set xs. x \<le> z" and sxs: "sorted xs"
      by simp_all
    from sxs Cons have ylow: "\<forall>z \<in> set xs. y \<le> z"
      by auto
    show ?thesis
    proof (cases "a \<in> set xs \<and> a + 1 \<in> set xs")
      case True
      then have "has_consecutive xs"
        using Cons.IH sxs by blast
      then show ?thesis
        by (simp add: Cons has_consecutive_Cons)
    next
      case False
      have ax: "a = x"
      proof (rule ccontr)
        assume "a \<noteq> x"
        with Cons.prems(2) have "a \<in> set xs" by simp
        with False have "a + 1 \<notin> set xs" by simp
        with Cons.prems(3) have "a + 1 = x" by simp
        with low \<open>a \<in> set xs\<close> show False by fastforce
      qed
      with Cons.prems(3) have next_in: "x + 1 \<in> set xs" by simp
      with ylow have "y \<le> x + 1" by blast
      moreover from low Cons have "x \<le> y" by simp
      moreover have "y \<noteq> x"
      proof
        assume "y = x"
        with Cons ax have "a \<in> set xs" by simp
        with False ax next_in show False by simp
      qed
      ultimately have "y = x + 1" by arith
      then show ?thesis
        by (simp add: Cons has_consecutive_Cons)
    qed
  qed
qed

section \<open>The checks of the handler, stage by stage\<close>

lemma check_slots_single:
  "check_slots (slotStatus bs d) r [s] =
     (if occupantCount bs d s \<ge> MAX_CAPACITY then Some (SlotFull s)
      else if r = Leader \<and> leaderPresent bs d s then Some (LeaderConflict s)
      else None)"
proof (cases "s \<in> set TIME_SLOTS \<or> occupied bs d s")
  case True
  then show ?thesis
    by (simp add: slotStatus_apply)
next
  case False
  then have "occupantCount bs d s = 0" "\<not> leaderPresent bs d s"
    by (simp_all add: unoccupied_count unoccupied_leader)
  with False show ?thesis
    by (simp add: slotStatus_apply MAX_CAPACITY_def)
qed

lemma existingLeaderSlots_iff:
  "x \<in> set (existingLeaderSlots bs d n) \<longleftrightarrow> holdsLeader bs d n x"
  by (auto simp add: existingLeaderSlots_def holdsLeader_def)

lemma set_indices:
  "set (indices bs d n sel) =
     {indexOf TIME_SLOTS x | x. (holdsLeader bs d n x \<or> x \<in> set sel) \<and> x \<in> set TIME_SLOTS}"
  by (auto simp add: indices_def allProjectedLeaderSlots_def set_set_spread
      existingLeaderSlots_iff indexOf_absent)

lemma sorted_indices: "sorted (indices bs d n sel)"
  by (simp add: indices_def)

lemma indices_consecutive:
  "has_consecutive (indices bs d n sel) \<longleftrightarrow>
     (\<exists>i. i + 1 < length TIME_SLOTS
        \<and> (holdsLeader bs d n (TIME_SLOTS ! i) \<or> TIME_SLOTS ! i \<in> set sel)
        \<and> (holdsLeader bs d n (TIME_SLOTS ! (i + 1)) \<or> TIME_SLOTS ! (i + 1) \<in> set sel))"
  (is "?lhs \<longleftrightarrow> ?rhs")
proof
  assume ?lhs
  then have "\<exists>a \<in> set (indices bs d n sel). a + 1 \<in> set (indices bs d n sel)"
    by (rule has_consecutive_members)
  then obtain a where a: "a \<in> set (indices bs d n sel)"
      and a1: "a + 1 \<in> set (indices bs d n sel)"
    by blast
  from a obtain x where x: "holdsLeader bs d n x \<or> x \<in> set sel" "x \<in> set TIME_SLOTS"
      and ax: "a = indexOf TIME_SLOTS x"
    unfolding set_indices by blast
  from a1 obtain y where y: "holdsLeader bs d n y \<or> y \<in> set sel" "y \<in> set TIME_SLOTS"
      and ay: "a + 1 = indexOf TIME_SLOTS y"
    unfolding set_indices by blast
  from ax ay have eq: "indexOf TIME_SLOTS y = indexOf TIME_SLOTS x + 1"
    by simp
  define i where "i = nat (indexOf TIME_SLOTS x)"
  have xi: "i < length TIME_SLOTS" "TIME_SLOTS ! i = x"
    using indexOf_position [OF x(2)] by (simp_all add: i_def)
  have yi: "nat (indexOf TIME_SLOTS y) < length TIME_SLOTS"
      "TIME_SLOTS ! nat (indexOf TIME_SLOTS y) = y"
    using indexOf_position [OF y(2)] by simp_all
  have "- 1 \<le> indexOf TIME_SLOTS x" by (rule indexOf_lower)
  moreover have "indexOf TIME_SLOTS x \<noteq> - 1"
    using x(2) by (simp add: indexOf_absent)
  ultimately have "nat (indexOf TIME_SLOTS y) = i + 1"
    using eq by (simp add: i_def)
  with yi have "i + 1 < length TIME_SLOTS" "TIME_SLOTS ! (i + 1) = y"
    by simp_all
  with x y xi show ?rhs by blast
next
  assume ?rhs
  then obtain i where i: "i + 1 < length TIME_SLOTS"
      and x: "holdsLeader bs d n (TIME_SLOTS ! i) \<or> TIME_SLOTS ! i \<in> set sel"
      and y: "holdsLeader bs d n (TIME_SLOTS ! (i + 1)) \<or> TIME_SLOTS ! (i + 1) \<in> set sel"
    by blast
  from i have mem: "TIME_SLOTS ! i \<in> set TIME_SLOTS" "TIME_SLOTS ! (i + 1) \<in> set TIME_SLOTS"
    by simp_all
  from i have pos: "indexOf TIME_SLOTS (TIME_SLOTS ! i) = int i"
      "indexOf TIME_SLOTS (TIME_SLOTS ! (i + 1)) = int (i + 1)"
    by (simp_all add: indexOf_nth distinct_TIME_SLOTS)
  have "int i \<in> set (indices bs d n sel)"
    unfolding set_indices using x mem(1) pos(1) by (metis (mono_tags, lifting) mem_Collect_eq)
  moreover have "int i + 1 \<in> set (indices bs d n sel)"
    unfolding set_indices using y mem(2) pos(2)
    by (metis (mono_tags, lifting) mem_Collect_eq of_nat_Suc Suc_eq_plus1 of_nat_add of_nat_1)
  ultimately show ?lhs
    using sorted_indices by (blast intro: sorted_members_consecutive)
qed

lemma consecutive_single:
  "r = Leader \<and> has_consecutive (indices bs d n [s]) \<longleftrightarrow> stage_consecutive bs d r n s"
proof -
  have "i < length TIME_SLOTS - 1 \<longleftrightarrow> i + 1 < length TIME_SLOTS" for i
    by arith
  then show ?thesis
    by (auto simp add: stage_consecutive_def indices_consecutive projectedLeader_def list_ex_iff)
qed

lemma isDuplicate_iff:
  "isDuplicate bs d n sel \<longleftrightarrow>
     (\<exists>b \<in> set bs. date b = d \<and> leader b = trim n
        \<and> (\<exists>s \<in> set (bookedSlots b). s \<in> set sel))"
  by (auto simp add: isDuplicate_def list_ex_iff)

lemma duplicate_single: "isDuplicate bs d n [s] \<longleftrightarrow> stage_duplicate bs d n s"
  by (auto simp add: isDuplicate_iff stage_duplicate_def)

lemma validate_single:
  "validate bs d r n [s] = ordered_stages bs d r n (Some s)"
proof -
  have c: "(r = Leader \<and> has_consecutive (indices bs d n [s])) = stage_consecutive bs d r n s"
    by (rule consecutive_single)
  show ?thesis
    unfolding validate_def ordered_stages_def check_slots_single duplicate_single c
    by (simp add: stage_capacity_def stage_role_def)
qed

lemma validate_empty: "validate bs d r n [] = Some MissingSlot"
  by (simp add: validate_def)

section \<open>Reading the table back\<close>

lemma set_insert_sorted: "set (insert_sorted cmp x ys) = insert x (set ys)"
  by (induction ys) auto

lemma set_sort_with: "set (sort_with cmp xs) = set xs"
  by (induction xs) (simp_all add: sort_with_def set_insert_sorted)

lemma sum_insert_sorted:
  "sum_list (map g (filter P (insert_sorted cmp x ys)))
     = sum_list (map (g :: 'a \<Rightarrow> nat) (filter P (x # ys)))"
  by (induction ys) auto

lemma sum_sort_with:
  "sum_list (map g (filter P (sort_with cmp xs))) = sum_list (map (g :: 'a \<Rightarrow> nat) (filter P xs))"
proof (induction xs)
  case Nil
  show ?case by (simp add: sort_with_def)
next
  case (Cons x xs)
  have "sort_with cmp (x # xs) = insert_sorted cmp x (sort_with cmp xs)"
    by (simp add: sort_with_def)
  then show ?case
    using Cons by (simp add: sum_insert_sorted)
qed

lemma set_fetchBookings: "set (fetchBookings store) = set store"
  by (simp add: fetchBookings_def set_sort_with)

lemma occupantCount_fetchBookings:
  "occupantCount (fetchBookings store) d s = occupantCount store d s"
  by (simp add: occupantCount_def fetchBookings_def sum_sort_with)

lemma leaderPresent_fetchBookings:
  "leaderPresent (fetchBookings store) d s = leaderPresent store d s"
  by (simp add: leaderPresent_def set_fetchBookings)

lemma slotStatus_fetchBookings: "slotStatus (fetchBookings store) d = slotStatus store d"
  by (rule ext)
    (simp add: slotStatus_apply occupantCount_fetchBookings leaderPresent_fetchBookings
      occupied_def set_fetchBookings)

lemma holdsLeader_fetchBookings:
  "holdsLeader (fetchBookings store) d n x = holdsLeader store d n x"
  by (simp add: holdsLeader_def set_fetchBookings)

lemma consecutive_fetchBookings:
  "has_consecutive (indices (fetchBookings store) d n sel)
     = has_consecutive (indices store d n sel)"
  by (simp only: indices_consecutive holdsLeader_fetchBookings)

lemma isDuplicate_fetchBookings:
  "isDuplicate (fetchBookings store) d n sel = isDuplicate store d n sel"
  by (simp only: isDuplicate_iff set_fetchBookings)

lemma validate_fetchBookings:
  "validate (fetchBookings store) d r n sel = validate store d r n sel"
  by (simp only: validate_def slotStatus_fetchBookings consecutive_fetchBookings
      isDuplicate_fetchBookings)

lemmas example_defs =
  row_def S1_def S2_def S3_def D1_def D2_def TIME_SLOTS_def MAX_CAPACITY_def
  bookedSlots_def trim_def is_space_def js_def

lemmas stage_defs =
  ordered_stages_def stage_capacity_def stage_role_def stage_consecutive_def
  stage_duplicate_def projectedLeader_def holdsLeader_def occupantCount_def leaderPresent_def

section \<open>The derived slot index\<close>

lemma slotStatus_filter: "slotStatus bs d = slotStatus (filter (\<lambda>b. date b = d) bs) d"
  by (simp add: slotStatus_def)

lemma slotStatus_snoc:
  "slotStatus (bs @ [b]) d
     = (if date b = d then add_booking (slotStatus bs d) b else slotStatus bs d)"
  by (simp add: slotStatus_def)

text \<open>
  C7. For every reservation list and date, the index has an entry for each catalog label;
  the entry is count 0 and no leader when no reservation has the date; the index is the
  index of the reservations of that date alone; and each reservation of the date adds, to
  every label it occupies, one per occurrence to the count and its being a leader to
  \<open>hasLeader\<close>, so that the entry of a label is the number of occupations on the date and
  whether a leader occupies it.
\<close>

theorem slotStatus_index:
  "(\<forall>t \<in> set TIME_SLOTS. slotStatus bs d t \<noteq> None)
   \<and> ((\<forall>b \<in> set bs. date b \<noteq> d) \<longrightarrow>
        (\<forall>t \<in> set TIME_SLOTS. slotStatus bs d t = Some \<lparr>count = 0, hasLeader = False\<rparr>))
   \<and> slotStatus bs d = slotStatus (filter (\<lambda>b. date b = d) bs) d
   \<and> slotStatus (bs @ [b]) d
        = (if date b = d then add_booking (slotStatus bs d) b else slotStatus bs d)
   \<and> add_booking status b s
        = (if s \<in> set (bookedSlots b)
           then Some \<lparr>count = count (info_of (status s)) + count_list (bookedSlots b) s,
                      hasLeader = hasLeader (info_of (status s)) \<or> members b = js ''leader''\<rparr>
           else status s)
   \<and> slotStatus bs d s
        = (if s \<in> set TIME_SLOTS \<or> occupied bs d s
           then Some \<lparr>count = occupantCount bs d s, hasLeader = leaderPresent bs d s\<rparr>
           else None)"
proof -
  have present: "\<forall>t \<in> set TIME_SLOTS. slotStatus bs d t \<noteq> None"
    by (simp add: slotStatus_apply)
  have fresh: "(\<forall>b \<in> set bs. date b \<noteq> d) \<longrightarrow>
        (\<forall>t \<in> set TIME_SLOTS. slotStatus bs d t = Some \<lparr>count = 0, hasLeader = False\<rparr>)"
  proof (intro impI ballI)
    fix t
    assume other: "\<forall>b \<in> set bs. date b \<noteq> d" and t: "t \<in> set TIME_SLOTS"
    from other have "\<not> occupied bs d t"
      by (auto simp add: occupied_def)
    then have "occupantCount bs d t = 0" "\<not> leaderPresent bs d t"
      by (simp_all add: unoccupied_count unoccupied_leader)
    with t show "slotStatus bs d t = Some \<lparr>count = 0, hasLeader = False\<rparr>"
      by (simp add: slotStatus_apply)
  qed
  show ?thesis
    by (intro conjI present fresh slotStatus_filter slotStatus_snoc add_booking_apply
        slotStatus_apply)
qed

theorem slotStatus_index_witness:
  "date (row D2 S1 ''B'' ''member'') \<noteq> D1
   \<and> slotStatus [row D2 S1 ''B'' ''member''] D1 S1 = Some \<lparr>count = 0, hasLeader = False\<rparr>
   \<and> slotStatus ([row D2 S1 ''B'' ''member''] @ [row D1 S1 ''A'' ''leader'']) D1 S1
        = Some \<lparr>count = 1, hasLeader = True\<rparr>"
proof -
  note fresh = slotStatus_index [THEN conjunct2, THEN conjunct1]
  note snoc = slotStatus_index [THEN conjunct2, THEN conjunct2, THEN conjunct2, THEN conjunct1]
  note add = slotStatus_index [THEN conjunct2, THEN conjunct2, THEN conjunct2, THEN conjunct2,
      THEN conjunct1]
  have other_date: "date (row D2 S1 ''B'' ''member'') \<noteq> D1"
    by (simp add: row_def D1_def D2_def js_def)
  then have other: "\<forall>b \<in> set [row D2 S1 ''B'' ''member'']. date b \<noteq> D1"
    by simp
  from fresh other
  have all_zero: "\<forall>t \<in> set TIME_SLOTS.
      slotStatus [row D2 S1 ''B'' ''member''] D1 t = Some \<lparr>count = 0, hasLeader = False\<rparr>"
    by (rule mp)
  have s1: "S1 \<in> set TIME_SLOTS"
    by (simp add: S1_def TIME_SLOTS_def js_def)
  with all_zero
  have zero: "slotStatus [row D2 S1 ''B'' ''member''] D1 S1 = Some \<lparr>count = 0, hasLeader = False\<rparr>"
    by (rule bspec)
  have slots: "bookedSlots (row D1 S1 ''A'' ''leader'') = [S1]"
    by (rule catalog_bookedSlots [OF s1]) (simp add: row_def)
  have d: "date (row D1 S1 ''A'' ''leader'') = D1"
      and m: "members (row D1 S1 ''A'' ''leader'') = js ''leader''"
    by (simp_all add: row_def)
  have "slotStatus ([row D2 S1 ''B'' ''member''] @ [row D1 S1 ''A'' ''leader'']) D1 S1
        = add_booking (slotStatus [row D2 S1 ''B'' ''member''] D1) (row D1 S1 ''A'' ''leader'') S1"
    by (simp only: snoc d simp_thms if_True)
  also have "\<dots> = Some \<lparr>count = 1, hasLeader = True\<rparr>"
    by (simp add: add slots zero info_of_def m)
  finally show ?thesis
    using other_date zero by (intro conjI)
qed

section \<open>The anti-consecutive-leadership stage\<close>

lemma check_slots_reason:
  "check_slots status r sel = Some e \<Longrightarrow> (\<exists>s \<in> set sel. e = SlotFull s \<or> e = LeaderConflict s)"
  by (induction sel) (auto split: option.splits if_splits)

lemma check_slots_member:
  "check_slots status Member sel \<noteq> Some (LeaderConflict s)"
  by (induction sel) (auto split: option.splits)

lemma validate_consecutive_iff:
  "validate history d r n sel = Some ConsecutiveLeadership \<longleftrightarrow>
     sel \<noteq> [] \<and> trim n \<noteq> [] \<and> check_slots (slotStatus history d) r sel = None
     \<and> r = Leader \<and> has_consecutive (indices history d n sel)"
proof (cases "check_slots (slotStatus history d) r sel")
  case None
  then show ?thesis
    by (simp add: validate_def)
next
  case (Some e)
  then have "e \<noteq> ConsecutiveLeadership"
    by (auto dest: check_slots_reason)
  with Some show ?thesis
    by (simp add: validate_def)
qed

lemma validate_member:
  "validate history d Member n sel =
     (if sel = [] then Some MissingSlot
      else if trim n = [] then Some MissingName
      else (case check_slots (slotStatus history d) Member sel of
              Some e \<Rightarrow> Some e
            | None \<Rightarrow> if isDuplicate history d n sel then Some DuplicateBooking else None))"
  by (simp add: validate_def)

lemma adjacent_leader_rejected:
  assumes i: "i + 1 < length TIME_SLOTS"
    and held: "holdsLeader history d n (TIME_SLOTS ! i)"
  shows "stage_consecutive history d Leader n (TIME_SLOTS ! (i + 1))"
proof -
  from i have "i \<in> set [0 ..< length TIME_SLOTS - 1]"
    by simp
  moreover have "projectedLeader history d n (TIME_SLOTS ! (i + 1)) (TIME_SLOTS ! i)"
    using held by (simp add: projectedLeader_def)
  moreover have "projectedLeader history d n (TIME_SLOTS ! (i + 1)) (TIME_SLOTS ! (i + 1))"
    by (simp add: projectedLeader_def)
  ultimately show ?thesis
    unfolding stage_consecutive_def list_ex_iff by blast
qed

text \<open>
  C2. The stage rejects with \<open>ConsecutiveLeadership\<close> exactly when it is reached by a
  request for leader and two neighbours of the sorted position list differ by one. The
  list is sorted and holds the catalog positions of the slots that the history shows the
  booker leading on the date together with the requested ones. In particular a booker who
  leads the slot at position \<open>i\<close> is not admitted as leader of the slot at position
  \<open>i + 1\<close>, and the reason is \<open>ConsecutiveLeadership\<close> when that slot passes the earlier
  stages (so also when it has no leader). For role member the stage is skipped: the outcome
  is that of the other checks.
\<close>

theorem consecutive_leadership_stage:
  "(validate history d r n sel = Some ConsecutiveLeadership \<longleftrightarrow>
      sel \<noteq> [] \<and> trim n \<noteq> [] \<and> check_slots (slotStatus history d) r sel = None
      \<and> r = Leader \<and> has_consecutive (indices history d n sel))
   \<and> (has_consecutive (indices history d n sel) \<longleftrightarrow>
        (\<exists>k. k + 1 < length (indices history d n sel)
           \<and> indices history d n sel ! (k + 1) - indices history d n sel ! k = 1))
   \<and> sorted (indices history d n sel)
   \<and> set (indices history d n sel) =
        {indexOf TIME_SLOTS x | x.
           (holdsLeader history d n x \<or> x \<in> set sel) \<and> x \<in> set TIME_SLOTS}
   \<and> (i + 1 < length TIME_SLOTS \<and> holdsLeader history d n (TIME_SLOTS ! i) \<longrightarrow>
        validate history d Leader n [TIME_SLOTS ! (i + 1)] \<noteq> None
        \<and> (trim n \<noteq> [] \<and> occupantCount history d (TIME_SLOTS ! (i + 1)) < MAX_CAPACITY
             \<and> \<not> leaderPresent history d (TIME_SLOTS ! (i + 1)) \<longrightarrow>
            validate history d Leader n [TIME_SLOTS ! (i + 1)] = Some ConsecutiveLeadership))
   \<and> validate history d Member n sel \<noteq> Some ConsecutiveLeadership
   \<and> validate history d Member n sel =
        (if sel = [] then Some MissingSlot
         else if trim n = [] then Some MissingName
         else (case check_slots (slotStatus history d) Member sel of
                 Some e \<Rightarrow> Some e
               | None \<Rightarrow> if isDuplicate history d n sel then Some DuplicateBooking else None))"
proof -
  have diff: "has_consecutive (indices history d n sel) \<longleftrightarrow>
        (\<exists>k. k + 1 < length (indices history d n sel)
           \<and> indices history d n sel ! (k + 1) - indices history d n sel ! k = 1)"
  proof -
    have "b = a + 1 \<longleftrightarrow> b - a = 1" for a b :: int
      by arith
    then show ?thesis
      by (simp add: has_consecutive_iff)
  qed
  have particular:
    "i + 1 < length TIME_SLOTS \<and> holdsLeader history d n (TIME_SLOTS ! i) \<longrightarrow>
        validate history d Leader n [TIME_SLOTS ! (i + 1)] \<noteq> None
        \<and> (trim n \<noteq> [] \<and> occupantCount history d (TIME_SLOTS ! (i + 1)) < MAX_CAPACITY
             \<and> \<not> leaderPresent history d (TIME_SLOTS ! (i + 1)) \<longrightarrow>
            validate history d Leader n [TIME_SLOTS ! (i + 1)] = Some ConsecutiveLeadership)"
  proof (intro impI)
    assume "i + 1 < length TIME_SLOTS \<and> holdsLeader history d n (TIME_SLOTS ! i)"
    then have "stage_consecutive history d Leader n (TIME_SLOTS ! (i + 1))"
      by (blast intro: adjacent_leader_rejected)
    then show "validate history d Leader n [TIME_SLOTS ! (i + 1)] \<noteq> None
        \<and> (trim n \<noteq> [] \<and> occupantCount history d (TIME_SLOTS ! (i + 1)) < MAX_CAPACITY
             \<and> \<not> leaderPresent history d (TIME_SLOTS ! (i + 1)) \<longrightarrow>
            validate history d Leader n [TIME_SLOTS ! (i + 1)] = Some ConsecutiveLeadership)"
      by (simp add: validate_single ordered_stages_def stage_capacity_def stage_role_def)
  qed
  have member: "validate history d Member n sel \<noteq> Some ConsecutiveLeadership"
    by (simp add: validate_consecutive_iff)
  show ?thesis
    by (intro conjI validate_consecutive_iff diff sorted_indices set_indices particular member
        validate_member)
qed

theorem consecutive_leadership_stage_witness:
  "0 + 1 < length TIME_SLOTS
   \<and> holdsLeader [row D1 S1 ''A'' ''leader''] D1 (js '' A '') (TIME_SLOTS ! 0)
   \<and> trim (js '' A '') \<noteq> []
   \<and> occupantCount [row D1 S1 ''A'' ''leader''] D1 (TIME_SLOTS ! (0 + 1)) < MAX_CAPACITY
   \<and> \<not> leaderPresent [row D1 S1 ''A'' ''leader''] D1 (TIME_SLOTS ! (0 + 1))
   \<and> validate [row D1 S1 ''A'' ''leader''] D1 Leader (js '' A '') [TIME_SLOTS ! (0 + 1)]
        = Some ConsecutiveLeadership
   \<and> validate [row D1 S1 ''A'' ''leader''] D1 Leader (js '' A '') [S3] = None"
proof -
  note particular = consecutive_leadership_stage [THEN conjunct2, THEN conjunct2, THEN conjunct2,
      THEN conjunct2, THEN conjunct1, of 0 "[row D1 S1 ''A'' ''leader'']" D1 "(js '' A '')"]
  have i: "0 + 1 < length TIME_SLOTS"
    by (simp add: TIME_SLOTS_def js_def)
  have held: "holdsLeader [row D1 S1 ''A'' ''leader''] D1 (js '' A '') (TIME_SLOTS ! 0)"
    by (simp add: holdsLeader_def example_defs)
  have name: "trim (js '' A '') \<noteq> []"
    by (simp add: trim_def is_space_def js_def)
  have room: "occupantCount [row D1 S1 ''A'' ''leader''] D1 (TIME_SLOTS ! (0 + 1)) < MAX_CAPACITY"
    by (simp add: occupantCount_def example_defs)
  have free: "\<not> leaderPresent [row D1 S1 ''A'' ''leader''] D1 (TIME_SLOTS ! (0 + 1))"
    by (simp add: leaderPresent_def example_defs)
  from particular i held name room free
  have "validate [row D1 S1 ''A'' ''leader''] D1 Leader (js '' A '') [TIME_SLOTS ! (0 + 1)]
        = Some ConsecutiveLeadership"
    by blast
  moreover have "validate [row D1 S1 ''A'' ''leader''] D1 Leader (js '' A '') [S3] = None"
    by (simp add: validate_single stage_defs example_defs)
  ultimately show ?thesis
    using i held name room free by (intro conjI)
qed

section \<open>Runs of the application\<close>

lemma handleSubmit_demo:
  "handleSubmit e (demo_insert now stamp) ex f st =
     (case validate ex (form_date f) (form_role f) (form_name f) (selectedSlots f) of
        Some err \<Rightarrow> (f\<lparr>form_error := Some (Rejected err)\<rparr>, st, False)
      | None \<Rightarrow>
          (f\<lparr>form_error := None, form_name := [], selectedSlots := [], form_role := Member,
             showCelebration := (if form_date f = e then True else showCelebration f)\<rparr>,
           st @ [stored_row f now stamp], True))"
  by (simp add: handleSubmit_def demo_insert_def insert_row_def stored_row_def Let_def
      split: option.split)

lemma catalog_selection_cases:
  "catalog_selection sel \<longleftrightarrow> sel = [] \<or> (\<exists>t \<in> set TIME_SLOTS. sel = [t])"
  by (auto simp add: catalog_selection_def split: list.splits)

lemma toggleSlot_cases:
  "toggleSlot status t prev = prev \<or> toggleSlot status t prev = []
     \<or> toggleSlot status t prev = [t]"
  by (simp add: toggleSlot_def split: option.split)

lemma toggleSlot_catalog:
  "t \<in> set TIME_SLOTS \<Longrightarrow> catalog_selection prev \<Longrightarrow> catalog_selection (toggleSlot status t prev)"
  using toggleSlot_cases [of status t prev]
  by (auto simp add: catalog_selection_cases)

lemma stored_row_single:
  "selectedSlots f = [t] \<Longrightarrow> slot (stored_row f now stamp) = t"
  by (simp add: stored_row_def)

lemma stored_row_fields:
  "date (stored_row f now stamp) = form_date f"
  "leader (stored_row f now stamp) = trim (form_name f)"
  "members (stored_row f now stamp) = role_string (form_role f)"
  by (simp_all add: stored_row_def)

text \<open>
  One step either leaves the table as it is or is a submission that the handler admits on
  the \<^verbatim>\<open>bookings\<close> state it is given, and then appends the row of the form.
\<close>

lemma app_step_table:
  "table (app_step st ev) = table st
     \<or> (\<exists>now stamp. ev = Submit now stamp \<and> admitted (bookings st) (form st)
          \<and> table (app_step st ev) = table st @ [stored_row (form st) now stamp])"
proof (cases ev)
  case (Submit now stamp)
  then show ?thesis
    by (cases "admitted (bookings st) (form st)")
      (auto simp add: handleSubmit_demo admitted_def)
qed simp_all

lemma app_step_selection:
  assumes "catalog_selection (selectedSlots (form st))"
  shows "catalog_selection (selectedSlots (form (app_step st ev)))"
proof (cases ev)
  case (SetDate d)
  then show ?thesis by (simp add: catalog_selection_def)
next
  case (ClickSlot t)
  with assms show ?thesis by (simp add: toggleSlot_catalog)
next
  case (Submit now stamp)
  with assms show ?thesis
    by (cases "admitted (bookings st) (form st)")
      (auto simp add: handleSubmit_demo admitted_def catalog_selection_def)
qed (use assms in simp_all)

lemma admitted_selection:
  assumes "admitted history f" "catalog_selection (selectedSlots f)"
  shows "\<exists>t \<in> set TIME_SLOTS. selectedSlots f = [t]"
proof -
  from assms(1) have "selectedSlots f \<noteq> []"
    by (auto simp add: admitted_def validate_empty)
  with assms(2) show ?thesis
    by (simp add: catalog_selection_cases)
qed

lemma run_Nil: "run st [] = st"
  by (simp add: run_def)

lemma run_Cons: "run st (ev # events) = run (app_step st ev) events"
  by (simp add: run_def)

lemma run_selection:
  "catalog_selection (selectedSlots (form st))
     \<Longrightarrow> catalog_selection (selectedSlots (form (run st events)))"
proof (induction events arbitrary: st)
  case Nil
  then show ?case by (simp add: run_Nil)
next
  case (Cons ev events)
  from Cons.prems have "catalog_selection (selectedSlots (form (app_step st ev)))"
    by (rule app_step_selection)
  then show ?case
    unfolding run_Cons by (rule Cons.IH)
qed

text \<open>
  An invariant of the table holds along every run if every admitted submission of one
  catalog slot keeps it, whatever \<^verbatim>\<open>bookings\<close> state the handler was given.
\<close>

lemma run_invariant:
  assumes sel: "catalog_selection (selectedSlots (form st))"
    and start: "P (table st)"
    and step: "\<And>tb history f now stamp t.
        P tb \<Longrightarrow> admitted history f \<Longrightarrow> t \<in> set TIME_SLOTS \<Longrightarrow> selectedSlots f = [t]
        \<Longrightarrow> P (tb @ [stored_row f now stamp])"
  shows "P (table (run st events))"
  using sel start
proof (induction events arbitrary: st)
  case Nil
  then show ?case by (simp add: run_Nil)
next
  case (Cons ev events)
  have sel': "catalog_selection (selectedSlots (form (app_step st ev)))"
    using Cons.prems(1) by (rule app_step_selection)
  have "P (table (app_step st ev))"
  proof (cases "table (app_step st ev) = table st")
    case True
    with Cons.prems(2) show ?thesis by simp
  next
    case False
    with app_step_table [of st ev] obtain now stamp
      where adm: "admitted (bookings st) (form st)"
        and tb: "table (app_step st ev) = table st @ [stored_row (form st) now stamp]"
      by blast
    from adm Cons.prems(1) obtain t where "t \<in> set TIME_SLOTS" "selectedSlots (form st) = [t]"
      using admitted_selection by blast
    with Cons.prems(2) adm show ?thesis
      unfolding tb by (rule step)
  qed
  with sel' show ?case
    unfolding run_Cons by (rule Cons.IH)
qed

text \<open>
  The same for runs whose submissions all find \<^verbatim>\<open>bookings\<close> fresh: then it is enough
  that a submission admitted on the table itself keeps the invariant.
\<close>

lemma fresh_run_invariant:
  assumes sel: "catalog_selection (selectedSlots (form st))"
    and start: "P (table st)"
    and fresh: "fresh_submits st events"
    and step: "\<And>tb f now stamp t.
        P tb \<Longrightarrow> admitted tb f \<Longrightarrow> t \<in> set TIME_SLOTS \<Longrightarrow> selectedSlots f = [t]
        \<Longrightarrow> P (tb @ [stored_row f now stamp])"
  shows "P (table (run st events))"
  using sel start fresh
proof (induction events arbitrary: st)
  case Nil
  then show ?case by (simp add: run_Nil)
next
  case (Cons ev events)
  have sel': "catalog_selection (selectedSlots (form (app_step st ev)))"
    using Cons.prems(1) by (rule app_step_selection)
  from Cons.prems(3) have rest: "fresh_submits (app_step st ev) events"
    by simp
  have "P (table (app_step st ev))"
  proof (cases "table (app_step st ev) = table st")
    case True
    with Cons.prems(2) show ?thesis by simp
  next
    case False
    with app_step_table [of st ev] obtain now stamp
      where ev: "ev = Submit now stamp"
        and adm: "admitted (bookings st) (form st)"
        and tb: "table (app_step st ev) = table st @ [stored_row (form st) now stamp]"
      by blast
    from ev Cons.prems(3) have "bookings st = fetchBookings (table st)"
      by simp
    with adm have adm': "admitted (table st) (form st)"
      by (simp add: admitted_def validate_fetchBookings)
    from adm Cons.prems(1) obtain t where "t \<in> set TIME_SLOTS" "selectedSlots (form st) = [t]"
      using admitted_selection by blast
    with Cons.prems(2) adm' show ?thesis
      unfolding tb by (rule step)
  qed
  with sel' show ?case
    using rest unfolding run_Cons by (rule Cons.IH)
qed

lemma run_store_invariant:
  assumes start: "P (table st)"
    and step: "\<And>tb history f now stamp.
        P tb \<Longrightarrow> admitted history f \<Longrightarrow> P (tb @ [stored_row f now stamp])"
  shows "P (table (run st events))"
  using start
proof (induction events arbitrary: st)
  case Nil
  then show ?case by (simp add: run_Nil)
next
  case (Cons ev events)
  have "P (table (app_step st ev))"
    using app_step_table [of st ev] Cons.prems step by metis
  then show ?case
    unfolding run_Cons by (rule Cons.IH)
qed

lemma run_appends: "table (run st events) = table st @ written st events"
proof -
  have "\<exists>added. table (run st events) = table st @ added"
    by (rule run_store_invariant) auto
  then show ?thesis
    by (auto simp add: written_def)
qed

lemma written_trimmed:
  "\<forall>b \<in> set (written st events). trim (leader b) = leader b"
proof -
  have "\<exists>added. table (run st events) = table st @ added
      \<and> (\<forall>b \<in> set added. trim (leader b) = leader b)"
  proof (rule run_store_invariant)
    show "\<exists>added. table st = table st @ added \<and> (\<forall>b \<in> set added. trim (leader b) = leader b)"
      by simp
  next
    fix tb and history :: "booking list" and f :: form_state and now stamp
    assume "\<exists>added. tb = table st @ added \<and> (\<forall>b \<in> set added. trim (leader b) = leader b)"
    then obtain added where a: "tb = table st @ added"
        and t: "\<forall>b \<in> set added. trim (leader b) = leader b"
      by blast
    have "tb @ [stored_row f now stamp] = table st @ (added @ [stored_row f now stamp])"
      by (simp add: a)
    moreover have "\<forall>b \<in> set (added @ [stored_row f now stamp]). trim (leader b) = leader b"
      using t by (simp add: stored_row_fields trim_idem)
    ultimately show "\<exists>added'. tb @ [stored_row f now stamp] = table st @ added'
        \<and> (\<forall>b \<in> set added'. trim (leader b) = leader b)"
      by blast
  qed
  then show ?thesis
    by (auto simp add: written_def)
qed

lemma written_single_slot:
  assumes "catalog_selection (selectedSlots (form st))"
  shows "\<forall>b \<in> set (written st events). slot b \<in> set TIME_SLOTS \<and> bookedSlots b = [slot b]"
proof -
  let ?ok = "\<lambda>b. slot b \<in> set TIME_SLOTS \<and> bookedSlots b = [slot b]"
  have "\<exists>added. table (run st events) = table st @ added \<and> (\<forall>b \<in> set added. ?ok b)"
  proof (rule run_invariant [OF assms])
    show "\<exists>added. table st = table st @ added \<and> (\<forall>b \<in> set added. ?ok b)"
      by simp
  next
    fix tb and history :: "booking list" and f :: form_state and now stamp t
    assume "\<exists>added. tb = table st @ added \<and> (\<forall>b \<in> set added. ?ok b)"
      and t: "t \<in> set TIME_SLOTS" and sel: "selectedSlots f = [t]"
    then obtain added where a: "tb = table st @ added" and ok: "\<forall>b \<in> set added. ?ok b"
      by blast
    from sel have sl: "slot (stored_row f now stamp) = t"
      by (rule stored_row_single)
    with t have "?ok (stored_row f now stamp)"
      by (simp add: catalog_bookedSlots)
    with ok have "\<forall>b \<in> set (added @ [stored_row f now stamp]). ?ok b"
      by simp
    moreover have "tb @ [stored_row f now stamp] = table st @ (added @ [stored_row f now stamp])"
      by (simp add: a)
    ultimately show "\<exists>added'. tb @ [stored_row f now stamp] = table st @ added'
        \<and> (\<forall>b \<in> set added'. ?ok b)"
      by blast
  qed
  then show ?thesis
    by (auto simp add: written_def)
qed

section \<open>What a submission does to the store\<close>

lemma example_run:
  "table (run (initial_app [] D1)
          [SetName (js '' A ''), SetRole Leader, ClickSlot S1, Submit 5 (js ''t'')])
     = [\<lparr>booking_id = 5, created_at = js ''t'', date = D1, slot = S1, leader = js ''A'',
         members = js ''leader''\<rparr>]"
  by (simp add: run_def initial_app_def initial_form_def handleSubmit_demo stored_row_def
      validate_single stage_defs example_defs toggleSlot_def slotStatus_apply occupied_def)

text \<open>
  C6. Whatever the store call does, a rejected submission returns with the reason set, the
  store as it was and no refresh; a submission that passes every check hands the store call
  exactly one row, and the store afterwards is what that call returns. Against the
  repository's store the table changes exactly when the checks pass, by one appended row
  that carries the form's date, the sorted and joined selection (the slot itself for one
  slot), the trimmed name and the role.
\<close>

theorem handleSubmit_store:
  "(validate ex (form_date f) (form_role f) (form_name f) (selectedSlots f) = Some e \<longrightarrow>
      handleSubmit c ins ex f st = (f\<lparr>form_error := Some (Rejected e)\<rparr>, st, False))
   \<and> (validate ex (form_date f) (form_role f) (form_name f) (selectedSlots f) = None \<longrightarrow>
        fst (snd (handleSubmit c ins ex f st))
          = snd (ins [\<lparr>row_date = form_date f, row_leader = trim (form_name f),
                       row_members = role_string (form_role f),
                       row_slot = join_comma_space (sort (selectedSlots f))\<rparr>] st))
   \<and> fst (snd (handleSubmit c (demo_insert now stamp) ex f st))
        = (if validate ex (form_date f) (form_role f) (form_name f) (selectedSlots f) = None
           then st @ [\<lparr>booking_id = now, created_at = stamp, date = form_date f,
                        slot = join_comma_space (sort (selectedSlots f)),
                        leader = trim (form_name f), members = role_string (form_role f)\<rparr>]
           else st)
   \<and> (fst (snd (handleSubmit c (demo_insert now stamp) ex f st)) \<noteq> st \<longleftrightarrow>
        validate ex (form_date f) (form_role f) (form_name f) (selectedSlots f) = None)
   \<and> join_comma_space (sort [s]) = s"
proof -
  let ?v = "validate ex (form_date f) (form_role f) (form_name f) (selectedSlots f)"
  have rejected: "?v = Some e \<longrightarrow>
      handleSubmit c ins ex f st = (f\<lparr>form_error := Some (Rejected e)\<rparr>, st, False)"
    by (simp add: handleSubmit_def Let_def)
  have passed: "?v = None \<longrightarrow>
        fst (snd (handleSubmit c ins ex f st))
          = snd (ins [\<lparr>row_date = form_date f, row_leader = trim (form_name f),
                       row_members = role_string (form_role f),
                       row_slot = join_comma_space (sort (selectedSlots f))\<rparr>] st)"
    by (simp add: handleSubmit_def insert_row_def Let_def split: prod.split option.split)
  have demo: "fst (snd (handleSubmit c (demo_insert now stamp) ex f st))
        = (if ?v = None
           then st @ [\<lparr>booking_id = now, created_at = stamp, date = form_date f,
                        slot = join_comma_space (sort (selectedSlots f)),
                        leader = trim (form_name f), members = role_string (form_role f)\<rparr>]
           else st)"
    by (auto simp add: handleSubmit_demo stored_row_def split: option.split)
  have changed: "fst (snd (handleSubmit c (demo_insert now stamp) ex f st)) \<noteq> st \<longleftrightarrow> ?v = None"
    by (simp add: demo)
  have single: "join_comma_space (sort [s]) = s"
    by simp
  show ?thesis
    by (intro conjI rejected passed demo changed single)
qed

theorem handleSubmit_store_witness:
  "validate [] D1 Member (js ''  '') [S1] = Some MissingName
   \<and> fst (snd (handleSubmit EXAM_END_DATE (demo_insert 5 (js ''t'')) []
        \<lparr>form_date = D1, form_role = Member, form_name = js ''  '', selectedSlots = [S1],
         form_error = None, showCelebration = False\<rparr> [])) = []
   \<and> validate [] D1 Member (js '' A '') [S1] = None
   \<and> fst (snd (handleSubmit EXAM_END_DATE (demo_insert 5 (js ''t'')) []
        \<lparr>form_date = D1, form_role = Member, form_name = js '' A '', selectedSlots = [S1],
         form_error = None, showCelebration = False\<rparr> []))
       = [\<lparr>booking_id = 5, created_at = js ''t'', date = D1, slot = S1, leader = js ''A'',
           members = js ''member''\<rparr>]"
proof -
  have blank: "validate [] D1 Member (js ''  '') [S1] = Some MissingName"
    by (simp add: validate_single stage_defs example_defs)
  have named: "validate [] D1 Member (js '' A '') [S1] = None"
    by (simp add: validate_single stage_defs example_defs)
  note rejected = handleSubmit_store [THEN conjunct1, rule_format,
      of "[]" "\<lparr>form_date = D1, form_role = Member, form_name = js ''  '', selectedSlots = [S1],
         form_error = None, showCelebration = False\<rparr>" MissingName]
  note demo = handleSubmit_store [THEN conjunct2, THEN conjunct2, THEN conjunct1,
      of _ 5 "(js ''t'')" "[]" "\<lparr>form_date = D1, form_role = Member, form_name = js '' A '',
         selectedSlots = [S1], form_error = None, showCelebration = False\<rparr>" "[]"]
  have first: "fst (snd (handleSubmit EXAM_END_DATE (demo_insert 5 (js ''t'')) []
        \<lparr>form_date = D1, form_role = Member, form_name = js ''  '', selectedSlots = [S1],
         form_error = None, showCelebration = False\<rparr> [])) = []"
    using blank by (simp add: rejected)
  have second: "fst (snd (handleSubmit EXAM_END_DATE (demo_insert 5 (js ''t'')) []
        \<lparr>form_date = D1, form_role = Member, form_name = js '' A '', selectedSlots = [S1],
         form_error = None, showCelebration = False\<rparr> []))
       = [\<lparr>booking_id = 5, created_at = js ''t'', date = D1, slot = S1, leader = js ''A'',
           members = js ''member''\<rparr>]"
    using named by (simp add: demo) (simp add: trim_def is_space_def js_def)
  show ?thesis
    by (intro conjI blank first named second)
qed

section \<open>The celebration date\<close>

text \<open>
  C9. For any two celebration dates the handler reaches the same decision: the same store,
  the same call or no call of \<^verbatim>\<open>onSuccess\<close>, the same error, and the same form up to the
  celebration flag. The flag keeps its value unless the insert succeeded, and is then set
  exactly when the form's date is the celebration date.
\<close>

theorem celebration_date_cosmetic:
  "fst (snd (handleSubmit c1 ins ex f st)) = fst (snd (handleSubmit c2 ins ex f st))
   \<and> snd (snd (handleSubmit c1 ins ex f st)) = snd (snd (handleSubmit c2 ins ex f st))
   \<and> form_error (fst (handleSubmit c1 ins ex f st)) = form_error (fst (handleSubmit c2 ins ex f st))
   \<and> (fst (handleSubmit c1 ins ex f st))\<lparr>showCelebration := x\<rparr>
        = (fst (handleSubmit c2 ins ex f st))\<lparr>showCelebration := x\<rparr>
   \<and> (\<not> snd (snd (handleSubmit c1 ins ex f st)) \<longrightarrow>
        showCelebration (fst (handleSubmit c1 ins ex f st)) = showCelebration f)
   \<and> (snd (snd (handleSubmit c1 ins ex f st)) \<longrightarrow>
        validate ex (form_date f) (form_role f) (form_name f) (selectedSlots f) = None
        \<and> showCelebration (fst (handleSubmit c1 ins ex f st))
            = (form_date f = c1 \<or> showCelebration f))"
proof (cases "validate ex (form_date f) (form_role f) (form_name f) (selectedSlots f)")
  case (Some e)
  then show ?thesis
    by (simp add: handleSubmit_def Let_def)
next
  case None
  obtain err st' where call: "ins [insert_row (form_date f) (form_role f) (form_name f)
      (selectedSlots f)] st = (err, st')"
    by (cases "ins [insert_row (form_date f) (form_role f) (form_name f) (selectedSlots f)] st")
  show ?thesis
  proof (cases err)
    case None
    with \<open>validate ex (form_date f) (form_role f) (form_name f) (selectedSlots f) = None\<close> call
    show ?thesis
      by (simp add: handleSubmit_def Let_def)
  next
    case (Some msg)
    with \<open>validate ex (form_date f) (form_role f) (form_name f) (selectedSlots f) = None\<close> call
    show ?thesis
      by (simp add: handleSubmit_def Let_def)
  qed
qed

theorem celebration_date_cosmetic_witness:
  "snd (snd (handleSubmit EXAM_END_DATE (demo_insert 5 (js ''t'')) []
        \<lparr>form_date = EXAM_END_DATE, form_role = Member, form_name = js ''A'', selectedSlots = [S1],
         form_error = None, showCelebration = False\<rparr> []))
   \<and> showCelebration (fst (handleSubmit EXAM_END_DATE (demo_insert 5 (js ''t'')) []
        \<lparr>form_date = EXAM_END_DATE, form_role = Member, form_name = js ''A'', selectedSlots = [S1],
         form_error = None, showCelebration = False\<rparr> []))
   \<and> \<not> showCelebration (fst (handleSubmit D1 (demo_insert 5 (js ''t'')) []
        \<lparr>form_date = EXAM_END_DATE, form_role = Member, form_name = js ''A'', selectedSlots = [S1],
         form_error = None, showCelebration = False\<rparr> []))
   \<and> fst (snd (handleSubmit EXAM_END_DATE (demo_insert 5 (js ''t'')) []
        \<lparr>form_date = EXAM_END_DATE, form_role = Member, form_name = js ''A'', selectedSlots = [S1],
         form_error = None, showCelebration = False\<rparr> []))
      = fst (snd (handleSubmit D1 (demo_insert 5 (js ''t'')) []
        \<lparr>form_date = EXAM_END_DATE, form_role = Member, form_name = js ''A'', selectedSlots = [S1],
         form_error = None, showCelebration = False\<rparr> []))"
proof -
  let ?f = "\<lparr>form_date = EXAM_END_DATE, form_role = Member, form_name = js ''A'',
      selectedSlots = [S1], form_error = None, showCelebration = False\<rparr>"
  have pass: "validate [] (form_date ?f) (form_role ?f) (form_name ?f) (selectedSlots ?f) = None"
    by (simp add: validate_single stage_defs example_defs)
  then have ok: "snd (snd (handleSubmit c (demo_insert 5 (js ''t'')) [] ?f []))" for c
    by (simp add: handleSubmit_demo)
  note flag = celebration_date_cosmetic [THEN conjunct2, THEN conjunct2, THEN conjunct2,
      THEN conjunct2, THEN conjunct2, rule_format, THEN conjunct2, OF ok]
  note same = celebration_date_cosmetic [THEN conjunct1,
      of EXAM_END_DATE "demo_insert 5 (js ''t'')" "[]" ?f "[]" D1]
  have on: "showCelebration (fst (handleSubmit EXAM_END_DATE (demo_insert 5 (js ''t'')) [] ?f []))"
    by (simp add: flag)
  have off: "\<not> showCelebration (fst (handleSubmit D1 (demo_insert 5 (js ''t'')) [] ?f []))"
    by (simp add: flag) (simp add: EXAM_END_DATE_def D1_def js_def)
  show ?thesis
    by (intro conjI ok on off same)
qed

section \<open>One slot per written row\<close>

text \<open>
  C8. \<^verbatim>\<open>toggleSlot\<close> leaves the selection as it was, empties it, or makes it the pressed
  slot alone: pressing a slot that is not full and not selected replaces the selection by
  it, pressing the selected slot clears the selection, pressing a full slot changes nothing.
  An empty selection is rejected. The insert writes the sorted and joined selection, which
  for one label is that label. So in every state that the application reaches with the form
  started in its initial state, whatever the table, the \<^verbatim>\<open>bookings\<close> state and the reads
  are, the selection is empty or one catalog label, and every row that the form has written
  carries one catalog label and occupies exactly that slot.
\<close>

theorem single_slot_written:
  "(toggleSlot status t prev = prev \<or> toggleSlot status t prev = []
      \<or> toggleSlot status t prev = [t])
   \<and> (status t = Some info \<and> count info < MAX_CAPACITY \<and> t \<notin> set prev \<longrightarrow>
        toggleSlot status t prev = [t])
   \<and> (status t = Some info \<and> count info < MAX_CAPACITY \<and> t \<in> set prev \<longrightarrow>
        toggleSlot status t prev = [])
   \<and> (status t = Some info \<and> count info \<ge> MAX_CAPACITY \<longrightarrow> toggleSlot status t prev = prev)
   \<and> validate history d r n [] = Some MissingSlot
   \<and> row_slot (insert_row d r n sel) = join_comma_space (sort sel)
   \<and> join_comma_space (sort [t]) = t
   \<and> catalog_selection (selectedSlots (form (run (st\<lparr>form := initial_form dflt\<rparr>) events)))
   \<and> (\<forall>b \<in> set (written (st\<lparr>form := initial_form dflt\<rparr>) events).
        slot b \<in> set TIME_SLOTS \<and> bookedSlots b = [slot b])
   \<and> table (run (st\<lparr>form := initial_form dflt\<rparr>) events)
        = table st @ written (st\<lparr>form := initial_form dflt\<rparr>) events"
proof -
  have start: "catalog_selection (selectedSlots (form (st\<lparr>form := initial_form dflt\<rparr>)))"
    by (simp add: initial_form_def catalog_selection_def)
  have replace: "status t = Some info \<and> count info < MAX_CAPACITY \<and> t \<notin> set prev \<longrightarrow>
        toggleSlot status t prev = [t]"
    by (simp add: toggleSlot_def)
  have clear: "status t = Some info \<and> count info < MAX_CAPACITY \<and> t \<in> set prev \<longrightarrow>
        toggleSlot status t prev = []"
    by (simp add: toggleSlot_def)
  have full: "status t = Some info \<and> count info \<ge> MAX_CAPACITY \<longrightarrow> toggleSlot status t prev = prev"
    by (simp add: toggleSlot_def)
  have written_slot: "row_slot (insert_row d r n sel) = join_comma_space (sort sel)"
    by (simp add: insert_row_def)
  have single: "join_comma_space (sort [t]) = t"
    by simp
  have appended: "table (run (st\<lparr>form := initial_form dflt\<rparr>) events)
        = table st @ written (st\<lparr>form := initial_form dflt\<rparr>) events"
    using run_appends [of "st\<lparr>form := initial_form dflt\<rparr>" events] by simp
  show ?thesis
    by (intro conjI toggleSlot_cases replace clear full validate_empty written_slot single
        run_selection [OF start] written_single_slot [OF start] appended)
qed

theorem single_slot_written_witness:
  "slotStatus [] D1 S2 = Some \<lparr>count = 0, hasLeader = False\<rparr>
   \<and> count \<lparr>count = 0, hasLeader = False\<rparr> < MAX_CAPACITY
   \<and> S2 \<notin> set [S1]
   \<and> toggleSlot (slotStatus [] D1) S2 [S1] = [S2]
   \<and> written (initial_app [] D1)
        [SetName (js '' A ''), SetRole Leader, ClickSlot S1, Submit 5 (js ''t'')]
      = [\<lparr>booking_id = 5, created_at = js ''t'', date = D1, slot = S1, leader = js ''A'',
          members = js ''leader''\<rparr>]
   \<and> bookedSlots \<lparr>booking_id = 5, created_at = js ''t'', date = D1, slot = S1, leader = js ''A'',
          members = js ''leader''\<rparr> = [S1]"
proof -
  note replace = single_slot_written [THEN conjunct2, THEN conjunct1, rule_format]
  note rows = single_slot_written [where st = "initial_app [] D1" and dflt = D1 and events =
      "[SetName (js '' A ''), SetRole Leader, ClickSlot S1, Submit 5 (js ''t'')]",
      THEN conjunct2, THEN conjunct2, THEN conjunct2, THEN conjunct2, THEN conjunct2,
      THEN conjunct2, THEN conjunct2, THEN conjunct2, THEN conjunct1]
  have entry: "slotStatus [] D1 S2 = Some \<lparr>count = 0, hasLeader = False\<rparr>"
    by (simp add: slotStatus_apply occupied_def occupantCount_def leaderPresent_def example_defs)
  have room: "count \<lparr>count = 0, hasLeader = False\<rparr> < MAX_CAPACITY"
    by (simp add: MAX_CAPACITY_def)
  have other: "S2 \<notin> set [S1]"
    by (simp add: S1_def S2_def js_def)
  from entry room other have toggled: "toggleSlot (slotStatus [] D1) S2 [S1] = [S2]"
    by (intro replace conjI)
  have init: "(initial_app [] D1)\<lparr>form := initial_form D1\<rparr> = initial_app [] D1"
    by (simp add: initial_app_def)
  have wr: "written (initial_app [] D1)
        [SetName (js '' A ''), SetRole Leader, ClickSlot S1, Submit 5 (js ''t'')]
      = [\<lparr>booking_id = 5, created_at = js ''t'', date = D1, slot = S1, leader = js ''A'',
          members = js ''leader''\<rparr>]"
    by (simp add: written_def example_run) (simp add: initial_app_def)
  from rows
  have one: "bookedSlots \<lparr>booking_id = 5, created_at = js ''t'', date = D1, slot = S1,
      leader = js ''A'', members = js ''leader''\<rparr> = [S1]"
    by (simp add: init wr)
  show ?thesis
    by (intro conjI entry room other toggled wr one)
qed

section \<open>Stored names\<close>

text \<open>
  C10. The row handed to the insert carries the trimmed name, and trimming a trimmed name
  changes nothing. So every row that the form has written, from whatever state the
  application started, has a name equal to its own trimming, and the comparison of a stored
  name with a trimmed request name, as the anti-consecutive and duplicate checks make it, is
  for these rows a comparison of two trimmed names.
\<close>

theorem stored_name_trimmed:
  "row_leader (insert_row d r n sel) = trim n
   \<and> trim (trim n) = trim n
   \<and> table (run st events) = table st @ written st events
   \<and> (\<forall>b \<in> set (written st events).
        trim (leader b) = leader b \<and> (leader b = trim m \<longleftrightarrow> trim (leader b) = trim m))"
proof -
  have inserted: "row_leader (insert_row d r n sel) = trim n"
    by (simp add: insert_row_def)
  have "\<forall>b \<in> set (written st events).
        trim (leader b) = leader b \<and> (leader b = trim m \<longleftrightarrow> trim (leader b) = trim m)"
    using written_trimmed [of st events] by simp
  then show ?thesis
    by (intro conjI inserted trim_idem run_appends)
qed

theorem stored_name_trimmed_witness:
  "written (initial_app [] D1)
        [SetName (js '' A ''), SetRole Leader, ClickSlot S1, Submit 5 (js ''t'')]
      = [\<lparr>booking_id = 5, created_at = js ''t'', date = D1, slot = S1, leader = js ''A'',
          members = js ''leader''\<rparr>]
   \<and> trim (leader \<lparr>booking_id = 5, created_at = js ''t'', date = D1, slot = S1,
          leader = js ''A'', members = js ''leader''\<rparr>) = js ''A''
   \<and> trim (js '' A '') = js ''A''"
proof -
  note names = stored_name_trimmed [where st = "initial_app [] D1" and events =
      "[SetName (js '' A ''), SetRole Leader, ClickSlot S1, Submit 5 (js ''t'')]",
      THEN conjunct2, THEN conjunct2, THEN conjunct2]
  have wr: "written (initial_app [] D1)
        [SetName (js '' A ''), SetRole Leader, ClickSlot S1, Submit 5 (js ''t'')]
      = [\<lparr>booking_id = 5, created_at = js ''t'', date = D1, slot = S1, leader = js ''A'',
          members = js ''leader''\<rparr>]"
    by (simp add: written_def example_run) (simp add: initial_app_def)
  from names
  have kept: "trim (leader \<lparr>booking_id = 5, created_at = js ''t'', date = D1, slot = S1,
      leader = js ''A'', members = js ''leader''\<rparr>) = js ''A''"
    by (simp add: wr)
  have request: "trim (js '' A '') = js ''A''"
    by (simp add: trim_def is_space_def js_def)
  show ?thesis
    by (intro conjI wr kept request)
qed

section \<open>Capacity\<close>

lemma index_count: "count (info_of (slotStatus history d s)) = occupantCount history d s"
  by (simp add: slotStatus_apply info_of_def no_info_def unoccupied_count)

lemma index_leader: "hasLeader (info_of (slotStatus history d s)) = leaderPresent history d s"
  by (simp add: slotStatus_apply info_of_def no_info_def unoccupied_leader)

lemma admitted_single:
  assumes "admitted history f" "selectedSlots f = [t]"
  shows "trim (form_name f) \<noteq> []"
    and "occupantCount history (form_date f) t < MAX_CAPACITY"
    and "form_role f = Leader \<Longrightarrow> \<not> leaderPresent history (form_date f) t"
  using assms
  by (auto simp add: admitted_def validate_single ordered_stages_def stage_capacity_def
      stage_role_def split: if_splits)

lemma stored_row_slots:
  "t \<in> set TIME_SLOTS \<Longrightarrow> selectedSlots f = [t] \<Longrightarrow> bookedSlots (stored_row f now stamp) = [t]"
  by (rule catalog_bookedSlots) (simp_all add: stored_row_single)

lemma occupantCount_stored:
  assumes "t \<in> set TIME_SLOTS" "selectedSlots f = [t]"
  shows "occupantCount (tb @ [stored_row f now stamp]) d s
     = occupantCount tb d s + (if form_date f = d \<and> s = t then 1 else 0)"
  using assms
  by (simp add: occupantCount_append occupantCount_single stored_row_slots stored_row_fields)

lemma capacity_kept:
  assumes fresh: "fresh_submits (st\<lparr>form := initial_form dflt\<rparr>) events"
  shows "occupantCount (table (run (st\<lparr>form := initial_form dflt\<rparr>) events)) d s
     \<le> max MAX_CAPACITY (occupantCount (table st) d s)"
proof -
  have start: "catalog_selection (selectedSlots (form (st\<lparr>form := initial_form dflt\<rparr>)))"
    by (simp add: initial_form_def catalog_selection_def)
  let ?P = "\<lambda>tb. occupantCount tb d s \<le> max MAX_CAPACITY (occupantCount (table st) d s)"
  have "?P (table (run (st\<lparr>form := initial_form dflt\<rparr>) events))"
  proof (rule fresh_run_invariant [OF start _ fresh])
    show "?P (table (st\<lparr>form := initial_form dflt\<rparr>))" by simp
  next
    fix tb and f :: form_state and now stamp t
    assume p: "?P tb" and adm: "admitted tb f" and t: "t \<in> set TIME_SLOTS"
      and sel: "selectedSlots f = [t]"
    show "?P (tb @ [stored_row f now stamp])"
    proof (cases "form_date f = d \<and> s = t")
      case True
      with adm sel have "occupantCount tb d s < MAX_CAPACITY"
        by (auto dest: admitted_single(2))
      with True t sel show ?thesis
        by (simp add: occupantCount_stored)
    next
      case False
      with t sel have "occupantCount (tb @ [stored_row f now stamp]) d s = occupantCount tb d s"
        by (auto simp add: occupantCount_stored)
      with p show ?thesis
        by simp
    qed
  qed
  then show ?thesis .
qed

lemma full_slot_rejected:
  assumes "occupantCount history d s \<ge> MAX_CAPACITY"
  shows "validate history d r n [s] = Some (if trim n = [] then MissingName else SlotFull s)"
  using assms by (simp add: validate_single ordered_stages_def stage_capacity_def)

text \<open>
  C3, as the code has it. The count that the index derives for a date and slot is the number
  of occupations of the slot on the date in the list that the form is given, which is the
  \<^verbatim>\<open>bookings\<close> state and not the table. A request for a slot whose count in that list is
  already \<open>C = 3\<close> or more is rejected before the insert, whatever the store call is: with
  \<open>SlotFull\<close> when the name is not blank, with \<open>MissingName\<close> when it is; so an admitted
  request is for a slot with a count below \<open>C\<close> in that list. Hence along every run from
  the form's initial state, from any table, in which every submission finds \<^verbatim>\<open>bookings\<close>
  fresh, the count in the table never rises above the larger of \<open>C\<close> and its value at the
  start, and stays within \<open>C\<close> from a table within \<open>C\<close>.
\<close>

theorem capacity_invariant:
  "count (info_of (slotStatus history d s)) = occupantCount history d s
   \<and> (fresh_submits (st\<lparr>form := initial_form dflt\<rparr>) events \<longrightarrow>
        occupantCount (table (run (st\<lparr>form := initial_form dflt\<rparr>) events)) d s
          \<le> max MAX_CAPACITY (occupantCount (table st) d s))
   \<and> (fresh_submits (st\<lparr>form := initial_form dflt\<rparr>) events
        \<and> occupantCount (table st) d s \<le> MAX_CAPACITY \<longrightarrow>
        occupantCount (table (run (st\<lparr>form := initial_form dflt\<rparr>) events)) d s
          \<le> MAX_CAPACITY)
   \<and> (occupantCount history d s \<ge> MAX_CAPACITY \<longrightarrow>
        validate history d r n [s] = Some (if trim n = [] then MissingName else SlotFull s)
        \<and> handleSubmit c ins history
             \<lparr>form_date = d, form_role = r, form_name = n, selectedSlots = [s],
              form_error = e0, showCelebration = flag\<rparr> tb
           = (\<lparr>form_date = d, form_role = r, form_name = n, selectedSlots = [s],
               form_error = Some (Rejected (if trim n = [] then MissingName else SlotFull s)),
               showCelebration = flag\<rparr>, tb, False))
   \<and> (admitted history f \<and> selectedSlots f = [t] \<longrightarrow>
        occupantCount history (form_date f) t < MAX_CAPACITY)"
proof -
  have kept: "fresh_submits (st\<lparr>form := initial_form dflt\<rparr>) events \<longrightarrow>
        occupantCount (table (run (st\<lparr>form := initial_form dflt\<rparr>) events)) d s
          \<le> max MAX_CAPACITY (occupantCount (table st) d s)"
    by (simp add: capacity_kept)
  have within: "fresh_submits (st\<lparr>form := initial_form dflt\<rparr>) events
        \<and> occupantCount (table st) d s \<le> MAX_CAPACITY \<longrightarrow>
        occupantCount (table (run (st\<lparr>form := initial_form dflt\<rparr>) events)) d s
          \<le> MAX_CAPACITY"
  proof
    assume a: "fresh_submits (st\<lparr>form := initial_form dflt\<rparr>) events
        \<and> occupantCount (table st) d s \<le> MAX_CAPACITY"
    then have fresh: "fresh_submits (st\<lparr>form := initial_form dflt\<rparr>) events"
      and "max MAX_CAPACITY (occupantCount (table st) d s) = MAX_CAPACITY"
      by (simp_all add: max_absorb1)
    with capacity_kept [OF fresh, of d s]
    show "occupantCount (table (run (st\<lparr>form := initial_form dflt\<rparr>) events)) d s
        \<le> MAX_CAPACITY"
      by simp
  qed
  have rejected: "occupantCount history d s \<ge> MAX_CAPACITY \<longrightarrow>
        validate history d r n [s] = Some (if trim n = [] then MissingName else SlotFull s)
        \<and> handleSubmit c ins history
             \<lparr>form_date = d, form_role = r, form_name = n, selectedSlots = [s],
              form_error = e0, showCelebration = flag\<rparr> tb
           = (\<lparr>form_date = d, form_role = r, form_name = n, selectedSlots = [s],
               form_error = Some (Rejected (if trim n = [] then MissingName else SlotFull s)),
               showCelebration = flag\<rparr>, tb, False)"
    by (simp add: full_slot_rejected handleSubmit_def Let_def)
  have below: "admitted history f \<and> selectedSlots f = [t] \<longrightarrow>
        occupantCount history (form_date f) t < MAX_CAPACITY"
    by (auto dest: admitted_single(2))
  show ?thesis
    by (intro conjI index_count kept within rejected below)
qed

theorem capacity_invariant_witness:
  "occupantCount three_members D1 S1 \<ge> MAX_CAPACITY
   \<and> validate three_members D1 Member (js ''E'') [S1] = Some (SlotFull S1)
   \<and> fresh_submits (initial_app three_members D1)
        [SetName (js ''E''), ClickSlot S1, ReadAnswered, AnswerArrives 0, Submit 5 (js ''t'')]
   \<and> occupantCount (table (initial_app three_members D1)) D1 S1 \<le> MAX_CAPACITY
   \<and> form_error (form (run (initial_app three_members D1)
        [SetName (js ''E''), ClickSlot S1, ReadAnswered, AnswerArrives 0, Submit 5 (js ''t'')]))
      = Some (Rejected (SlotFull S1))
   \<and> occupantCount (table (run (initial_app three_members D1)
        [SetName (js ''E''), ClickSlot S1, ReadAnswered, AnswerArrives 0, Submit 5 (js ''t'')]))
        D1 S1 \<le> MAX_CAPACITY"
proof -
  let ?evs = "[SetName (js ''E''), ClickSlot S1, ReadAnswered, AnswerArrives 0,
      Submit 5 (js ''t'')]"
  note within = capacity_invariant [where st = "initial_app three_members D1" and dflt = D1
      and events = ?evs and d = D1 and s = S1,
      THEN conjunct2, THEN conjunct2, THEN conjunct1, rule_format]
  note rejected = capacity_invariant [where history = three_members and d = D1 and s = S1
      and r = Member and n = "js ''E''",
      THEN conjunct2, THEN conjunct2, THEN conjunct2, THEN conjunct1, rule_format,
      THEN conjunct1]
  have init: "(initial_app three_members D1)\<lparr>form := initial_form D1\<rparr>
      = initial_app three_members D1"
    by (simp add: initial_app_def)
  have full: "occupantCount three_members D1 S1 \<ge> MAX_CAPACITY"
    by (simp add: three_members_def occupantCount_def example_defs)
  have le: "occupantCount (table (initial_app three_members D1)) D1 S1 \<le> MAX_CAPACITY"
    by (simp add: initial_app_def three_members_def occupantCount_def example_defs)
  have name: "trim (js ''E'') \<noteq> []"
    by (simp add: trim_def is_space_def js_def)
  from rejected [OF full] name
  have reason: "validate three_members D1 Member (js ''E'') [S1] = Some (SlotFull S1)"
    by simp
  have s1: "S1 \<in> set TIME_SLOTS"
    by (simp add: S1_def TIME_SLOTS_def)
  have pressed: "toggleSlot (slotStatus [] D1) S1 [] = [S1]"
    by (simp add: toggleSlot_def slotStatus_apply s1 occupantCount_def MAX_CAPACITY_def)
  have fresh: "fresh_submits (initial_app three_members D1) ?evs"
    by (simp add: initial_app_def s1)
  have shown: "form_error (form (run (initial_app three_members D1) ?evs))
      = Some (Rejected (SlotFull S1))"
    by (simp add: run_def initial_app_def initial_form_def s1 pressed handleSubmit_demo
        validate_fetchBookings reason)
  from within fresh le
  have kept: "occupantCount (table (run (initial_app three_members D1) ?evs)) D1 S1
      \<le> MAX_CAPACITY"
    by (simp add: init)
  show ?thesis
    by (intro conjI full reason fresh le shown kept)
qed

text \<open>
  The claim as worded fails in three places. A request with a blank name for a full slot is
  rejected with \<open>MissingName\<close>, not \<open>SlotFull\<close>. A table that starts with four occupants
  of a slot has a count above \<open>C\<close> before any submission. And a form that has not yet
  received the first read validates against the empty list: it admits a fourth occupant of
  a slot that is full in the table.
\<close>

theorem capacity_invariant_counterexample:
  "occupantCount three_members D1 S1 = 3
   \<and> validate three_members D1 Member (js ''  '') [S1] = Some MissingName
   \<and> validate three_members D1 Member (js ''  '') [S1] \<noteq> Some (SlotFull S1)
   \<and> occupantCount (table (run (initial_app four_members D1) [])) D1 S1 = 4
   \<and> occupantCount (table (run (initial_app three_members D1)
        [SetName (js ''E''), ClickSlot S1, Submit 5 (js ''t'')])) D1 S1 = 4"
proof -
  have stale: "table (run (initial_app three_members D1)
        [SetName (js ''E''), ClickSlot S1, Submit 5 (js ''t'')])
      = three_members @ [\<lparr>booking_id = 5, created_at = js ''t'', date = D1, slot = S1,
          leader = js ''E'', members = js ''member''\<rparr>]"
    by (simp add: run_def initial_app_def initial_form_def handleSubmit_demo stored_row_def
        validate_single stage_defs example_defs toggleSlot_def slotStatus_apply occupied_def)
  show ?thesis
    unfolding stale
    by (simp add: validate_single stage_defs three_members_def four_members_def example_defs
        run_def initial_app_def)
qed

section \<open>One leader per slot\<close>

lemma leaderPresent_count: "leaderPresent history d s \<longleftrightarrow> 0 < leaderCount history d s"
proof -
  have "0 < length (filter P xs) \<longleftrightarrow> (\<exists>x \<in> set xs. P x)" for P and xs :: "booking list"
    by (induction xs) auto
  then show ?thesis
    by (simp add: leaderPresent_def leaderCount_def)
qed

lemma leaderCount_stored:
  assumes "t \<in> set TIME_SLOTS" "selectedSlots f = [t]"
  shows "leaderCount (tb @ [stored_row f now stamp]) d s
     = leaderCount tb d s
       + (if form_date f = d \<and> form_role f = Leader \<and> s = t then 1 else 0)"
proof -
  have "role_string (form_role f) = js ''leader'' \<longleftrightarrow> form_role f = Leader"
    by (cases "form_role f") (simp_all add: js_def)
  with assms show ?thesis
    by (auto simp add: leaderCount_def stored_row_slots stored_row_fields)
qed

lemma leader_kept:
  assumes fresh: "fresh_submits (st\<lparr>form := initial_form dflt\<rparr>) events"
  shows "leaderCount (table (run (st\<lparr>form := initial_form dflt\<rparr>) events)) d s
     \<le> max 1 (leaderCount (table st) d s)"
proof -
  have start: "catalog_selection (selectedSlots (form (st\<lparr>form := initial_form dflt\<rparr>)))"
    by (simp add: initial_form_def catalog_selection_def)
  let ?P = "\<lambda>tb. leaderCount tb d s \<le> max 1 (leaderCount (table st) d s)"
  have "?P (table (run (st\<lparr>form := initial_form dflt\<rparr>) events))"
  proof (rule fresh_run_invariant [OF start _ fresh])
    show "?P (table (st\<lparr>form := initial_form dflt\<rparr>))" by simp
  next
    fix tb and f :: form_state and now stamp t
    assume p: "?P tb" and adm: "admitted tb f" and t: "t \<in> set TIME_SLOTS"
      and sel: "selectedSlots f = [t]"
    show "?P (tb @ [stored_row f now stamp])"
    proof (cases "form_date f = d \<and> form_role f = Leader \<and> s = t")
      case True
      with adm sel have "\<not> leaderPresent tb d s"
        by (auto dest: admitted_single(3))
      then have "leaderCount tb d s = 0"
        by (simp add: leaderPresent_count)
      with True t sel have "leaderCount (tb @ [stored_row f now stamp]) d s = 1"
        by (simp add: leaderCount_stored)
      then show ?thesis
        by simp
    next
      case False
      with t sel have "leaderCount (tb @ [stored_row f now stamp]) d s = leaderCount tb d s"
        by (auto simp add: leaderCount_stored)
      with p show ?thesis
        by simp
    qed
  qed
  then show ?thesis .
qed

lemma led_slot_rejected:
  assumes "leaderPresent history d s"
  shows "validate history d Leader n [s]
     = Some (if trim n = [] then MissingName
             else if occupantCount history d s \<ge> MAX_CAPACITY then SlotFull s
             else LeaderConflict s)"
  using assms
  by (simp add: validate_single ordered_stages_def stage_capacity_def stage_role_def)

lemma member_no_conflict: "validate history d Member n sel \<noteq> Some (LeaderConflict x)"
proof (cases "check_slots (slotStatus history d) Member sel")
  case None
  then show ?thesis
    by (simp add: validate_member)
next
  case (Some e)
  then have "e \<noteq> LeaderConflict x"
    using check_slots_member [of "slotStatus history d" sel x] by auto
  with Some show ?thesis
    by (simp add: validate_member)
qed

text \<open>
  C4, as the code has it. The index's \<open>hasLeader\<close> of a date and slot says whether some
  leader reservation occupies the slot on the date in the list that the form is given, the
  \<^verbatim>\<open>bookings\<close> state. A request for leader on a slot whose \<open>hasLeader\<close> is true is never
  admitted: the reason is \<open>LeaderConflict\<close> unless an earlier stage fails, that is
  \<open>MissingName\<close> for a blank name and \<open>SlotFull\<close> for a full slot; so an admitted request
  for leader is for a slot without a leader in that list. A request for member is never
  rejected with \<open>LeaderConflict\<close>. Hence along every run from the form's initial state in
  which every submission finds \<^verbatim>\<open>bookings\<close> fresh, the number of leader reservations of
  a date and slot in the table never rises above the larger of one and its value at the
  start; from the empty table there is at most one.
\<close>

theorem leader_unique:
  "hasLeader (info_of (slotStatus history d s)) = leaderPresent history d s
   \<and> (leaderPresent history d s \<longleftrightarrow> 0 < leaderCount history d s)
   \<and> (fresh_submits (st\<lparr>form := initial_form dflt\<rparr>) events \<longrightarrow>
        leaderCount (table (run (st\<lparr>form := initial_form dflt\<rparr>) events)) d s
          \<le> max 1 (leaderCount (table st) d s))
   \<and> (fresh_submits (initial_app [] dflt) events \<longrightarrow>
        leaderCount (table (run (initial_app [] dflt) events)) d s \<le> 1)
   \<and> (leaderPresent history d s \<longrightarrow>
        validate history d Leader n [s]
          = Some (if trim n = [] then MissingName
                  else if occupantCount history d s \<ge> MAX_CAPACITY then SlotFull s
                  else LeaderConflict s))
   \<and> validate history d Member n sel \<noteq> Some (LeaderConflict x)
   \<and> (admitted history f \<and> selectedSlots f = [t] \<and> form_role f = Leader \<longrightarrow>
        \<not> leaderPresent history (form_date f) t)"
proof -
  have kept: "fresh_submits (st\<lparr>form := initial_form dflt\<rparr>) events \<longrightarrow>
        leaderCount (table (run (st\<lparr>form := initial_form dflt\<rparr>) events)) d s
          \<le> max 1 (leaderCount (table st) d s)"
    by (rule impI) (rule leader_kept)
  have empty: "fresh_submits (initial_app [] dflt) events \<longrightarrow>
        leaderCount (table (run (initial_app [] dflt) events)) d s \<le> 1"
  proof
    assume fresh: "fresh_submits (initial_app [] dflt) events"
    have init: "(initial_app [] dflt)\<lparr>form := initial_form dflt\<rparr> = initial_app [] dflt"
      by (simp add: initial_app_def)
    from fresh have "fresh_submits ((initial_app [] dflt)\<lparr>form := initial_form dflt\<rparr>) events"
      by (simp only: init)
    then have "leaderCount (table (run ((initial_app [] dflt)\<lparr>form := initial_form dflt\<rparr>)
        events)) d s \<le> max 1 (leaderCount (table (initial_app [] dflt)) d s)"
      by (rule leader_kept)
    then show "leaderCount (table (run (initial_app [] dflt) events)) d s \<le> 1"
      unfolding init by (simp add: initial_app_def leaderCount_def)
  qed
  have conflict: "leaderPresent history d s \<longrightarrow>
        validate history d Leader n [s]
          = Some (if trim n = [] then MissingName
                  else if occupantCount history d s \<ge> MAX_CAPACITY then SlotFull s
                  else LeaderConflict s)"
    by (simp add: led_slot_rejected)
  have free: "admitted history f \<and> selectedSlots f = [t] \<and> form_role f = Leader \<longrightarrow>
        \<not> leaderPresent history (form_date f) t"
    by (auto dest: admitted_single(3))
  show ?thesis
    by (intro conjI index_leader leaderPresent_count kept empty conflict member_no_conflict
        free)
qed

lemma example_facts:
  shows s1_catalog: "S1 \<in> set TIME_SLOTS"
    and other_day: "D1 \<noteq> EXAM_END_DATE"
    and first_passes: "validate [] D1 Leader (js ''A'') [S1] = None"
    and first_row: "stored_row \<lparr>form_date = D1, form_role = Leader, form_name = js ''A'',
        selectedSlots = [S1], form_error = None, showCelebration = False\<rparr> now (js ''t'')
      = \<lparr>booking_id = now, created_at = js ''t'', date = D1, slot = S1, leader = js ''A'',
          members = js ''leader''\<rparr>"
    and press_empty: "toggleSlot (slotStatus [] D1) S1 [] = [S1]"
    and press_one: "toggleSlot (slotStatus [\<lparr>booking_id = 5, created_at = js ''t'', date = D1,
        slot = S1, leader = js ''A'', members = js ''leader''\<rparr>] D1) S1 [] = [S1]"
    and second_conflict: "validate [\<lparr>booking_id = 5, created_at = js ''t'', date = D1,
        slot = S1, leader = js ''A'', members = js ''leader''\<rparr>] D1 Leader (js ''A'') [S1]
      = Some (LeaderConflict S1)"
proof -
  show "S1 \<in> set TIME_SLOTS"
    by (simp add: S1_def TIME_SLOTS_def)
  show "D1 \<noteq> EXAM_END_DATE"
    by (simp add: D1_def EXAM_END_DATE_def js_def)
  show "validate [] D1 Leader (js ''A'') [S1] = None"
    by (simp add: validate_single stage_defs example_defs)
  show "stored_row \<lparr>form_date = D1, form_role = Leader, form_name = js ''A'',
        selectedSlots = [S1], form_error = None, showCelebration = False\<rparr> now (js ''t'')
      = \<lparr>booking_id = now, created_at = js ''t'', date = D1, slot = S1, leader = js ''A'',
          members = js ''leader''\<rparr>"
    by (simp add: stored_row_def trim_def is_space_def js_def)
  show "toggleSlot (slotStatus [] D1) S1 [] = [S1]"
    by (simp add: toggleSlot_def slotStatus_apply occupied_def occupantCount_def example_defs)
  show "toggleSlot (slotStatus [\<lparr>booking_id = 5, created_at = js ''t'', date = D1,
        slot = S1, leader = js ''A'', members = js ''leader''\<rparr>] D1) S1 [] = [S1]"
    by (simp add: toggleSlot_def slotStatus_apply occupied_def occupantCount_def example_defs)
  show "validate [\<lparr>booking_id = 5, created_at = js ''t'', date = D1,
        slot = S1, leader = js ''A'', members = js ''leader''\<rparr>] D1 Leader (js ''A'') [S1]
      = Some (LeaderConflict S1)"
    by (simp add: validate_single stage_defs example_defs)
qed

lemmas run_defs =
  run_def initial_app_def initial_form_def ask_leader_def patient_run_def hasty_run_def
  handleSubmit_demo validate_fetchBookings slotStatus_fetchBookings example_facts

lemma patient_fresh: "fresh_submits (initial_app [] D1) patient_run"
  by (simp add: run_defs)

lemma patient_error:
  "form_error (form (run (initial_app [] D1) patient_run)) = Some (Rejected (LeaderConflict S1))"
  by (simp add: run_defs)

lemma hasty_table:
  "table (run (initial_app [] D1) hasty_run)
     = [\<lparr>booking_id = 5, created_at = js ''t'', date = D1, slot = S1, leader = js ''A'',
         members = js ''leader''\<rparr>,
        \<lparr>booking_id = 6, created_at = js ''t'', date = D1, slot = S1, leader = js ''A'',
         members = js ''leader''\<rparr>]"
  by (simp add: run_defs)

theorem leader_unique_witness:
  "leaderPresent [row D1 S1 ''A'' ''leader''] D1 S1
   \<and> validate [row D1 S1 ''A'' ''leader''] D1 Leader (js ''B'') [S1] = Some (LeaderConflict S1)
   \<and> validate [row D1 S1 ''A'' ''leader''] D1 Member (js ''B'') [S1] = None
   \<and> fresh_submits (initial_app [] D1) patient_run
   \<and> form_error (form (run (initial_app [] D1) patient_run))
        = Some (Rejected (LeaderConflict S1))
   \<and> leaderCount (table (run (initial_app [] D1) patient_run)) D1 S1 \<le> 1"
proof -
  note conflict = leader_unique [THEN conjunct2, THEN conjunct2, THEN conjunct2, THEN conjunct2,
      THEN conjunct1, rule_format]
  note empty = leader_unique [THEN conjunct2, THEN conjunct2, THEN conjunct2, THEN conjunct1,
      rule_format]
  have led: "leaderPresent [row D1 S1 ''A'' ''leader''] D1 S1"
    by (simp add: leaderPresent_def example_defs)
  have name: "trim (js ''B'') \<noteq> []"
    by (simp add: trim_def is_space_def js_def)
  have room: "\<not> occupantCount [row D1 S1 ''A'' ''leader''] D1 S1 \<ge> MAX_CAPACITY"
    by (simp add: occupantCount_def example_defs)
  from conflict [OF led, of "js ''B''"] name room
  have reason: "validate [row D1 S1 ''A'' ''leader''] D1 Leader (js ''B'') [S1]
      = Some (LeaderConflict S1)"
    by simp
  have member: "validate [row D1 S1 ''A'' ''leader''] D1 Member (js ''B'') [S1] = None"
    by (simp add: validate_single stage_defs example_defs)
  from patient_fresh
  have one: "leaderCount (table (run (initial_app [] D1) patient_run)) D1 S1 \<le> 1"
    by (rule empty)
  show ?thesis
    by (intro conjI led reason member patient_fresh patient_error one)
qed

text \<open>
  The claim as worded fails in two places. On a full slot that has a leader a second request
  for leader is rejected with \<open>SlotFull\<close>, the earlier stage, not with \<open>LeaderConflict\<close>.
  And a form that submits the same request for leader twice before a read has arrived
  validates both against the empty list and writes two leader rows for one date and slot.
\<close>

theorem leader_unique_counterexample:
  "hasLeader (info_of (slotStatus full_with_leader D1 S1))
   \<and> validate full_with_leader D1 Leader (js ''E'') [S1] = Some (SlotFull S1)
   \<and> validate full_with_leader D1 Leader (js ''E'') [S1] \<noteq> Some (LeaderConflict S1)
   \<and> leaderCount (table (run (initial_app [] D1) hasty_run)) D1 S1 = 2"
  unfolding hasty_table
  by (simp add: index_leader validate_single stage_defs full_with_leader_def leaderCount_def
      example_defs)

section \<open>Submitting twice\<close>

lemma duplicate_of_stored:
  assumes t: "t \<in> set TIME_SLOTS" and sel: "selectedSlots f = [t]"
    and same: "trim n' = trim (form_name f)"
    and held: "stored_row f now stamp \<in> set history"
  shows "stage_duplicate history (form_date f) n' t"
proof -
  have "bookedSlots (stored_row f now stamp) = [t]"
    using t sel by (rule stored_row_slots)
  with held same show ?thesis
    unfolding stage_duplicate_def
    by (intro bexI [of _ "stored_row f now stamp"]) (simp_all add: stored_row_fields)
qed

lemma second_submission:
  assumes adm: "admitted ex f" and sel: "selectedSlots f = [t]"
    and t: "t \<in> set TIME_SLOTS" and same: "trim n' = trim (form_name f)"
    and held: "stored_row f now stamp \<in> set history"
  shows "validate history (form_date f) r' n' [t]
      = Some (if stage_capacity history (form_date f) t then SlotFull t
              else if stage_role history (form_date f) r' t then LeaderConflict t
              else if stage_consecutive history (form_date f) r' n' t
                then ConsecutiveLeadership
              else DuplicateBooking)"
proof -
  from adm sel have "trim (form_name f) \<noteq> []"
    by (rule admitted_single(1))
  with same have name: "trim n' \<noteq> []"
    by simp
  have dup: "stage_duplicate history (form_date f) n' t"
    using t sel same held by (rule duplicate_of_stored)
  have "validate history (form_date f) r' n' [t]
      = ordered_stages history (form_date f) r' n' (Some t)"
    by (rule validate_single)
  also have "\<dots> = Some (if stage_capacity history (form_date f) t then SlotFull t
              else if stage_role history (form_date f) r' t then LeaderConflict t
              else if stage_consecutive history (form_date f) r' n' t
                then ConsecutiveLeadership
              else DuplicateBooking)"
    using name dup by (simp add: ordered_stages_def)
  finally show ?thesis .
qed

lemma second_member:
  assumes adm: "admitted ex f" and sel: "selectedSlots f = [t]"
    and t: "t \<in> set TIME_SLOTS" and same: "trim n' = trim (form_name f)"
    and held: "stored_row f now stamp \<in> set history"
    and room: "occupantCount history (form_date f) t < MAX_CAPACITY"
  shows "validate history (form_date f) Member n' [t] = Some DuplicateBooking"
proof -
  from room have "\<not> stage_capacity history (form_date f) t"
    by (simp add: stage_capacity_def)
  moreover have "\<not> stage_role history (form_date f) Member t"
    by (simp add: stage_role_def)
  moreover have "\<not> stage_consecutive history (form_date f) Member n' t"
    by (simp add: stage_consecutive_def)
  ultimately show ?thesis
    using second_submission [OF adm sel t same held, of Member] by simp
qed

lemma second_leader:
  assumes adm: "admitted ex f" and sel: "selectedSlots f = [t]"
    and t: "t \<in> set TIME_SLOTS" and same: "trim n' = trim (form_name f)"
    and held: "stored_row f now stamp \<in> set history"
    and first: "form_role f = Leader"
  shows "validate history (form_date f) Leader n' [t]
      = Some (if occupantCount history (form_date f) t \<ge> MAX_CAPACITY then SlotFull t
              else LeaderConflict t)"
proof -
  have "bookedSlots (stored_row f now stamp) = [t]"
    using t sel by (rule stored_row_slots)
  with held first have "leaderPresent history (form_date f) t"
    unfolding leaderPresent_def
    by (intro bexI [of _ "stored_row f now stamp"]) (simp_all add: stored_row_fields)
  then have "stage_role history (form_date f) Leader t"
    by (simp add: stage_role_def)
  then show ?thesis
    using second_submission [OF adm sel t same held, of Leader]
    by (simp add: stage_capacity_def)
qed

text \<open>
  C5, as the code has it. The duplicate check fires exactly when some reservation in the
  list that the form is given has the request's trimmed name and date and occupies a
  selected slot; neither role enters. When a submission for one catalog slot is admitted it
  is stored as one row. A second submission with the same name, date and slot, with
  whichever role, is never admitted once the list that the form is given holds that row, as
  it does after a read of the table. Its reason is that of the first stage that fails:
  \<open>SlotFull\<close> when the slot is full in that list, else \<open>LeaderConflict\<close> when it asks
  for leader and the slot has one (so always when both submissions ask for leader), else
  \<open>ConsecutiveLeadership\<close> when that stage fires, and \<open>DuplicateBooking\<close> otherwise; in
  particular \<open>DuplicateBooking\<close> for a member request on a slot that still has room.
\<close>

theorem duplicate_submission:
  "(isDuplicate history d n sel \<longleftrightarrow>
      (\<exists>b \<in> set history. leader b = trim n \<and> date b = d
         \<and> (\<exists>s \<in> set (bookedSlots b). s \<in> set sel)))
   \<and> (admitted ex f \<and> selectedSlots f = [t] \<and> t \<in> set TIME_SLOTS
        \<and> trim n' = trim (form_name f) \<longrightarrow>
        fst (snd (handleSubmit c (demo_insert now stamp) ex f tb))
          = tb @ [stored_row f now stamp]
        \<and> stored_row f now stamp \<in> set (fetchBookings (tb @ [stored_row f now stamp]))
        \<and> (stored_row f now stamp \<in> set history \<longrightarrow>
             validate history (form_date f) r' n' [t]
               = Some (if stage_capacity history (form_date f) t then SlotFull t
                       else if stage_role history (form_date f) r' t then LeaderConflict t
                       else if stage_consecutive history (form_date f) r' n' t
                         then ConsecutiveLeadership
                       else DuplicateBooking))
        \<and> (stored_row f now stamp \<in> set history
             \<and> occupantCount history (form_date f) t < MAX_CAPACITY \<longrightarrow>
             validate history (form_date f) Member n' [t] = Some DuplicateBooking)
        \<and> (stored_row f now stamp \<in> set history \<and> form_role f = Leader \<longrightarrow>
             validate history (form_date f) Leader n' [t]
               = Some (if occupantCount history (form_date f) t \<ge> MAX_CAPACITY
                       then SlotFull t else LeaderConflict t)))"
proof -
  have stage: "isDuplicate history d n sel \<longleftrightarrow>
      (\<exists>b \<in> set history. leader b = trim n \<and> date b = d
         \<and> (\<exists>s \<in> set (bookedSlots b). s \<in> set sel))"
    by (auto simp add: isDuplicate_iff)
  have twice: "admitted ex f \<and> selectedSlots f = [t] \<and> t \<in> set TIME_SLOTS
        \<and> trim n' = trim (form_name f) \<longrightarrow>
        fst (snd (handleSubmit c (demo_insert now stamp) ex f tb))
          = tb @ [stored_row f now stamp]
        \<and> stored_row f now stamp \<in> set (fetchBookings (tb @ [stored_row f now stamp]))
        \<and> (stored_row f now stamp \<in> set history \<longrightarrow>
             validate history (form_date f) r' n' [t]
               = Some (if stage_capacity history (form_date f) t then SlotFull t
                       else if stage_role history (form_date f) r' t then LeaderConflict t
                       else if stage_consecutive history (form_date f) r' n' t
                         then ConsecutiveLeadership
                       else DuplicateBooking))
        \<and> (stored_row f now stamp \<in> set history
             \<and> occupantCount history (form_date f) t < MAX_CAPACITY \<longrightarrow>
             validate history (form_date f) Member n' [t] = Some DuplicateBooking)
        \<and> (stored_row f now stamp \<in> set history \<and> form_role f = Leader \<longrightarrow>
             validate history (form_date f) Leader n' [t]
               = Some (if occupantCount history (form_date f) t \<ge> MAX_CAPACITY
                       then SlotFull t else LeaderConflict t))"
  proof (intro impI, elim conjE, intro conjI impI)
    assume a: "admitted ex f" "selectedSlots f = [t]" "t \<in> set TIME_SLOTS"
      "trim n' = trim (form_name f)"
    from a(1) show "fst (snd (handleSubmit c (demo_insert now stamp) ex f tb))
        = tb @ [stored_row f now stamp]"
      by (simp add: handleSubmit_demo admitted_def)
    show "stored_row f now stamp \<in> set (fetchBookings (tb @ [stored_row f now stamp]))"
      by (simp add: set_fetchBookings)
    {
      assume "stored_row f now stamp \<in> set history"
      with a show "validate history (form_date f) r' n' [t]
               = Some (if stage_capacity history (form_date f) t then SlotFull t
                       else if stage_role history (form_date f) r' t then LeaderConflict t
                       else if stage_consecutive history (form_date f) r' n' t
                         then ConsecutiveLeadership
                       else DuplicateBooking)"
        by (rule second_submission)
    }
    {
      assume "stored_row f now stamp \<in> set history
          \<and> occupantCount history (form_date f) t < MAX_CAPACITY"
      with a show "validate history (form_date f) Member n' [t] = Some DuplicateBooking"
        by (blast intro: second_member)
    }
    {
      assume "stored_row f now stamp \<in> set history \<and> form_role f = Leader"
      with a show "validate history (form_date f) Leader n' [t]
               = Some (if occupantCount history (form_date f) t \<ge> MAX_CAPACITY
                       then SlotFull t else LeaderConflict t)"
        by (blast intro: second_leader)
    }
  qed
  show ?thesis
    by (intro conjI stage twice)
qed

theorem duplicate_submission_witness:
  "admitted [] (filled_form D1 Member (js ''A'') [S1])
   \<and> selectedSlots (filled_form D1 Member (js ''A'') [S1]) = [S1]
   \<and> S1 \<in> set TIME_SLOTS
   \<and> trim (js '' A '') = trim (form_name (filled_form D1 Member (js ''A'') [S1]))
   \<and> stored_row (filled_form D1 Member (js ''A'') [S1]) 5 (js ''t'')
        \<in> set (fetchBookings ([] @ [stored_row (filled_form D1 Member (js ''A'') [S1]) 5 (js ''t'')]))
   \<and> occupantCount
        (fetchBookings ([] @ [stored_row (filled_form D1 Member (js ''A'') [S1]) 5 (js ''t'')]))
        (form_date (filled_form D1 Member (js ''A'') [S1])) S1 < MAX_CAPACITY
   \<and> validate
        (fetchBookings ([] @ [stored_row (filled_form D1 Member (js ''A'') [S1]) 5 (js ''t'')]))
        (form_date (filled_form D1 Member (js ''A'') [S1])) Member (js '' A '') [S1]
      = Some DuplicateBooking"
proof -
  let ?f = "filled_form D1 Member (js ''A'') [S1]"
  let ?h = "fetchBookings ([] @ [stored_row ?f 5 (js ''t'')])"
  have adm: "admitted [] ?f"
    by (simp add: admitted_def filled_form_def validate_single stage_defs example_defs)
  have sel: "selectedSlots ?f = [S1]"
    by (simp add: filled_form_def)
  have t: "S1 \<in> set TIME_SLOTS"
    by (simp add: S1_def TIME_SLOTS_def)
  have same: "trim (js '' A '') = trim (form_name ?f)"
    by (simp add: filled_form_def trim_def is_space_def js_def)
  from adm sel t same have all: "admitted [] ?f \<and> selectedSlots ?f = [S1]
      \<and> S1 \<in> set TIME_SLOTS \<and> trim (js '' A '') = trim (form_name ?f)"
    by (intro conjI)
  note twice = duplicate_submission [where ex = "[]" and f = ?f and t = S1
      and n' = "js '' A ''" and now = 5 and stamp = "js ''t''" and tb = "[]" and history = ?h,
      THEN conjunct2, rule_format, OF all]
  from twice have held: "stored_row ?f 5 (js ''t'') \<in> set ?h"
    by blast
  have "occupantCount ?h (form_date ?f) S1
      = occupantCount ([] @ [stored_row ?f 5 (js ''t'')]) (form_date ?f) S1"
    by (rule occupantCount_fetchBookings)
  also have "\<dots> = occupantCount [] (form_date ?f) S1
      + (if form_date ?f = form_date ?f \<and> S1 = S1 then 1 else 0)"
    using t sel by (rule occupantCount_stored)
  also have "\<dots> = 1"
    by (simp add: occupantCount_def)
  finally have room: "occupantCount ?h (form_date ?f) S1 < MAX_CAPACITY"
    by (simp add: MAX_CAPACITY_def)
  from twice held room
  have again: "validate ?h (form_date ?f) Member (js '' A '') [S1] = Some DuplicateBooking"
    by blast
  show ?thesis
    by (intro conjI adm sel t same held room again)
qed

text \<open>
  The claim as worded fails in two places. For a request for leader the first submission is
  admitted, and the same submission again, validated against the table read back, is
  rejected with \<open>LeaderConflict\<close>, since the slot now has a leader and that stage comes
  before the duplicate check. And when the same request is submitted again before a read
  has arrived, it is validated against the list without the stored row and admitted again:
  both rows are written.
\<close>

theorem duplicate_submission_counterexample:
  "validate [] D1 Leader (js ''A'') [S1] = None
   \<and> fst (snd (handleSubmit EXAM_END_DATE (demo_insert 5 (js ''t'')) []
        (filled_form D1 Leader (js ''A'') [S1]) []))
      = [\<lparr>booking_id = 5, created_at = js ''t'', date = D1, slot = S1, leader = js ''A'',
          members = js ''leader''\<rparr>]
   \<and> validate (fetchBookings [\<lparr>booking_id = 5, created_at = js ''t'', date = D1, slot = S1,
        leader = js ''A'', members = js ''leader''\<rparr>]) D1 Leader (js ''A'') [S1]
      = Some (LeaderConflict S1)
   \<and> validate (fetchBookings [\<lparr>booking_id = 5, created_at = js ''t'', date = D1, slot = S1,
        leader = js ''A'', members = js ''leader''\<rparr>]) D1 Leader (js ''A'') [S1]
      \<noteq> Some DuplicateBooking
   \<and> form_error (form (run (initial_app [] D1) patient_run))
      = Some (Rejected (LeaderConflict S1))
   \<and> table (run (initial_app [] D1) hasty_run)
      = [\<lparr>booking_id = 5, created_at = js ''t'', date = D1, slot = S1, leader = js ''A'',
          members = js ''leader''\<rparr>,
         \<lparr>booking_id = 6, created_at = js ''t'', date = D1, slot = S1, leader = js ''A'',
          members = js ''leader''\<rparr>]"
proof -
  have stored: "fst (snd (handleSubmit EXAM_END_DATE (demo_insert 5 (js ''t'')) []
        (filled_form D1 Leader (js ''A'') [S1]) []))
      = [\<lparr>booking_id = 5, created_at = js ''t'', date = D1, slot = S1, leader = js ''A'',
          members = js ''leader''\<rparr>]"
    by (simp add: handleSubmit_demo filled_form_def first_passes first_row)
  show ?thesis
    unfolding validate_fetchBookings
    by (intro conjI first_passes stored patient_error hasty_table)
      (simp_all add: second_conflict)
qed

section \<open>The order of the stages\<close>

lemma reachable_request:
  "validate history (form_date (form (run (st\<lparr>form := initial_form dflt\<rparr>) events)))
      (form_role (form (run (st\<lparr>form := initial_form dflt\<rparr>) events)))
      (form_name (form (run (st\<lparr>form := initial_form dflt\<rparr>) events)))
      (selectedSlots (form (run (st\<lparr>form := initial_form dflt\<rparr>) events)))
     = ordered_stages history (form_date (form (run (st\<lparr>form := initial_form dflt\<rparr>) events)))
         (form_role (form (run (st\<lparr>form := initial_form dflt\<rparr>) events)))
         (form_name (form (run (st\<lparr>form := initial_form dflt\<rparr>) events)))
         (case selectedSlots (form (run (st\<lparr>form := initial_form dflt\<rparr>) events)) of
            [] \<Rightarrow> None | s # rest \<Rightarrow> Some s)"
proof -
  have "catalog_selection (selectedSlots (form (st\<lparr>form := initial_form dflt\<rparr>)))"
    by (simp add: initial_form_def catalog_selection_def)
  then have "catalog_selection
      (selectedSlots (form (run (st\<lparr>form := initial_form dflt\<rparr>) events)))"
    by (rule run_selection)
  then show ?thesis
    by (auto simp add: catalog_selection_cases validate_single validate_empty
        ordered_stages_def)
qed

text \<open>
  C1. For every request (no slot, or one slot \<open>s\<close>), the handler's checks give the outcome
  of the five stages taken in the fixed order well-formedness (slot, then name), capacity,
  role uniqueness, anti-consecutive leadership, duplicate submission: the reason is that of
  the first stage that fails, whatever the later stages would say, and the request passes
  only if no stage fails. Every request that the form can submit, in any state that the
  application reaches with the form started in its initial state, is of this kind.
\<close>

theorem validate_ordered_stages:
  "validate history d r n [] = ordered_stages history d r n None
   \<and> validate history d r n [s] = ordered_stages history d r n (Some s)
   \<and> (validate history d r n [s] = None \<longleftrightarrow>
        trim n \<noteq> [] \<and> \<not> stage_capacity history d s \<and> \<not> stage_role history d r s
        \<and> \<not> stage_consecutive history d r n s \<and> \<not> stage_duplicate history d n s)
   \<and> validate history (form_date (form (run (st\<lparr>form := initial_form dflt\<rparr>) events)))
        (form_role (form (run (st\<lparr>form := initial_form dflt\<rparr>) events)))
        (form_name (form (run (st\<lparr>form := initial_form dflt\<rparr>) events)))
        (selectedSlots (form (run (st\<lparr>form := initial_form dflt\<rparr>) events)))
      = ordered_stages history (form_date (form (run (st\<lparr>form := initial_form dflt\<rparr>) events)))
          (form_role (form (run (st\<lparr>form := initial_form dflt\<rparr>) events)))
          (form_name (form (run (st\<lparr>form := initial_form dflt\<rparr>) events)))
          (case selectedSlots (form (run (st\<lparr>form := initial_form dflt\<rparr>) events)) of
             [] \<Rightarrow> None | s # rest \<Rightarrow> Some s)"
proof -
  have none: "validate history d r n [] = ordered_stages history d r n None"
    by (simp add: validate_empty ordered_stages_def)
  have one: "validate history d r n [s] = ordered_stages history d r n (Some s)"
    by (rule validate_single)
  have "ordered_stages history d r n (Some s) = None \<longleftrightarrow>
        trim n \<noteq> [] \<and> \<not> stage_capacity history d s \<and> \<not> stage_role history d r s
        \<and> \<not> stage_consecutive history d r n s \<and> \<not> stage_duplicate history d n s"
    by (simp add: ordered_stages_def)
  with one have passes: "validate history d r n [s] = None \<longleftrightarrow>
        trim n \<noteq> [] \<and> \<not> stage_capacity history d s \<and> \<not> stage_role history d r s
        \<and> \<not> stage_consecutive history d r n s \<and> \<not> stage_duplicate history d n s"
    by simp
  show ?thesis
    by (intro conjI none one passes reachable_request)
qed

theorem validate_ordered_stages_witness:
  "validate [row D1 S1 ''A'' ''leader'', row D1 S2 ''A'' ''member'', row D1 S2 ''B'' ''leader'',
             row D1 S2 ''C'' ''member''] D1 Leader (js ''A'') [] = Some MissingSlot
   \<and> validate [row D1 S1 ''A'' ''leader'', row D1 S2 ''A'' ''member'', row D1 S2 ''B'' ''leader'',
             row D1 S2 ''C'' ''member''] D1 Leader (js ''  '') [S2] = Some MissingName
   \<and> validate [row D1 S1 ''A'' ''leader'', row D1 S2 ''A'' ''member'', row D1 S2 ''B'' ''leader'',
             row D1 S2 ''C'' ''member''] D1 Leader (js ''A'') [S2] = Some (SlotFull S2)
   \<and> validate [row D1 S1 ''A'' ''leader'', row D1 S2 ''A'' ''member'', row D1 S2 ''B'' ''leader'']
        D1 Leader (js ''A'') [S2] = Some (LeaderConflict S2)
   \<and> validate [row D1 S1 ''A'' ''leader'', row D1 S2 ''A'' ''member''] D1 Leader (js ''A'') [S2]
        = Some ConsecutiveLeadership
   \<and> validate [row D1 S2 ''A'' ''member''] D1 Leader (js ''A'') [S2] = Some DuplicateBooking
   \<and> validate [] D1 Leader (js ''A'') [S2] = None"
proof -
  note none = validate_ordered_stages [THEN conjunct1]
  note one = validate_ordered_stages [THEN conjunct2, THEN conjunct1]
  show ?thesis
    unfolding none one
    by (simp add: stage_defs example_defs)
qed

end
